theory Spec2Isabelle
  imports Complex_Main
begin

section \<open>Balanced sequence generator: shallow embedding\<close>

text \<open>
  The embedding follows \<^verbatim>\<open>balanced_sequence_generator.py\<close>. The numpy array
  \<^verbatim>\<open>markov_chain\<close> is a list of rows; its float64 cells are reals, every float64
  value being one. Comparisons, \<^verbatim>\<open>ceil\<close> and the search are exact on floats; the one
  operation of generation that rounds is the addition in the update of a cell, and it
  goes through \<open>fl\<close>, the rounding of the arithmetic to a representable value
  (round to nearest for float64), which is a parameter of the model.
  The two random sources of the program are streams of draws: \<open>nprnd\<close> is the stream
  behind \<^verbatim>\<open>np.random.rand\<close>, \<open>rnd\<close> the one behind \<^verbatim>\<open>random.random()\<close>; the
  position in \<open>rnd\<close> is part of the state. Python exceptions are values of \<open>error\<close>.
\<close>

datatype error = ValueError | IndexError

type_synonym matrix = "real list list"

text \<open>The state threaded through generation: the matrix and the number of draws consumed.\<close>

type_synonym gen_state = "matrix \<times> nat"

subsection \<open>initialize\_markov\_chain\<close>

text \<open>\<^verbatim>\<open>np.fill_diagonal(a, v)\<close>: cell \<open>(i, i)\<close> of every row that has one is set to \<open>v\<close>.\<close>

definition fill_diagonal :: "matrix \<Rightarrow> real \<Rightarrow> matrix" where
  "fill_diagonal a v = map (\<lambda>i. (a ! i)[i := v]) [0..<length a]"

text \<open>
  \<^verbatim>\<open>np.random.rand(N, N)\<close> raises ValueError for a negative dimension and otherwise
  fills an \<open>N \<times> N\<close> array in row-major order from the stream.
\<close>

definition random_rand :: "(nat \<Rightarrow> real) \<Rightarrow> int \<Rightarrow> error + matrix" where
  "random_rand nprnd N =
     (if N < 0 then Inl ValueError
      else Inr (map (\<lambda>i. map (\<lambda>j. nprnd (i * nat N + j)) [0..<nat N]) [0..<nat N]))"

definition initialize_markov_chain :: "(nat \<Rightarrow> real) \<Rightarrow> int \<Rightarrow> error + matrix" where
  "initialize_markov_chain nprnd N =
     (case random_rand nprnd N of
        Inl e \<Rightarrow> Inl e
      | Inr markov_chain \<Rightarrow> Inr (fill_diagonal markov_chain 0))"

subsection \<open>generate\_sequence\<close>

text \<open>\<^verbatim>\<open>np.min\<close> of a selection: ValueError on a zero-size array.\<close>

definition np_min :: "real list \<Rightarrow> error + real" where
  "np_min vs = (if vs = [] then Inl ValueError else Inr (min_list vs))"

text \<open>\<^verbatim>\<open>markov_chain[np.nonzero(markov_chain)]\<close>: the nonzero cells, in row-major order.\<close>

definition nonzero_cells :: "matrix \<Rightarrow> real list" where
  "nonzero_cells markov_chain = filter (\<lambda>v. v \<noteq> 0) (concat markov_chain)"

text \<open>\<^verbatim>\<open>row[np.nonzero(row)]\<close>: the nonzero cells of one row.\<close>

definition nonzero_row :: "real list \<Rightarrow> real list" where
  "nonzero_row row = filter (\<lambda>v. v \<noteq> 0) row"

text \<open>\<^verbatim>\<open>np.argwhere(markov_chain == v)\<close>: coordinates of the cells equal to \<open>v\<close>, row-major.\<close>

definition argwhere :: "matrix \<Rightarrow> real \<Rightarrow> (nat \<times> nat) list" where
  "argwhere markov_chain v =
     concat (map (\<lambda>r. map (Pair r) (filter (\<lambda>c. markov_chain ! r ! c = v)
                                          [0..<length (markov_chain ! r)]))
                 [0..<length markov_chain])"

text \<open>\<^verbatim>\<open>np.argwhere(row == v)\<close> on a single row: the matching column indices in order.\<close>

definition argwhere_row :: "real list \<Rightarrow> real \<Rightarrow> nat list" where
  "argwhere_row row v = filter (\<lambda>c. row ! c = v) [0..<length row]"

text \<open>
  The assignment both at line 73 and line 79:
  \<^verbatim>\<open>markov_chain[r, c] = ceil(markov_chain[r, c]) + random.random()\<close>, with the draw
  passed in as \<open>x\<close>. The float addition stores the rounded sum.
\<close>

definition reinforce :: "(real \<Rightarrow> real) \<Rightarrow> matrix \<Rightarrow> nat \<Rightarrow> nat \<Rightarrow> real \<Rightarrow> matrix" where
  "reinforce fl markov_chain r c x =
     markov_chain[r := (markov_chain ! r)[c := fl (of_int \<lceil>markov_chain ! r ! c\<rceil> + x)]]"

text \<open>
  Lines 68 to 73: the seed search over the whole matrix, the first two elements of the
  sequence, and the first update.
\<close>

definition seed_step ::
  "(real \<Rightarrow> real) \<Rightarrow> (nat \<Rightarrow> real) \<Rightarrow> gen_state \<Rightarrow> error + (nat list \<times> gen_state)" where
  "seed_step fl rnd st =
     (case st of (markov_chain, k) \<Rightarrow>
        (case np_min (nonzero_cells markov_chain) of
           Inl e \<Rightarrow> Inl e
         | Inr min_value \<Rightarrow>
             (case argwhere markov_chain min_value of
                [] \<Rightarrow> Inl IndexError
              | (r, c) # _ \<Rightarrow> Inr ([r, c], (reinforce fl markov_chain r c (rnd k), Suc k)))))"

text \<open>
  Lines 76 to 79: the body of the loop at index \<open>i\<close>. The row read is that of
  \<^verbatim>\<open>sequence[i-1]\<close>; a row index outside the array raises IndexError.
\<close>

definition loop_body ::
  "(real \<Rightarrow> real) \<Rightarrow> (nat \<Rightarrow> real) \<Rightarrow> nat \<Rightarrow> nat list \<times> gen_state \<Rightarrow> error + (nat list \<times> gen_state)" where
  "loop_body fl rnd i st =
     (case st of (sequence, markov_chain, k) \<Rightarrow>
        if length sequence \<le> i - 1 then Inl IndexError
        else if length markov_chain \<le> sequence ! (i - 1) then Inl IndexError
        else
          (case np_min (nonzero_row (markov_chain ! (sequence ! (i - 1)))) of
             Inl e \<Rightarrow> Inl e
           | Inr min_value \<Rightarrow>
               (case argwhere_row (markov_chain ! (sequence ! (i - 1))) min_value of
                  [] \<Rightarrow> Inl IndexError
                | c # _ \<Rightarrow>
                    Inr (sequence @ [c],
                         (reinforce fl markov_chain (sequence ! (i - 1)) c (rnd k), Suc k)))))"

text \<open>\<^verbatim>\<open>for i in range(2, N)\<close>, over the list of indices; an exception ends the loop.\<close>

fun extension_loop ::
  "(real \<Rightarrow> real) \<Rightarrow> (nat \<Rightarrow> real) \<Rightarrow> nat list \<Rightarrow> nat list \<times> gen_state \<Rightarrow>
     error + (nat list \<times> gen_state)" where
  "extension_loop fl rnd [] st = Inr st"
| "extension_loop fl rnd (i # is) st =
     (case loop_body fl rnd i st of
        Inl e \<Rightarrow> Inl e
      | Inr st' \<Rightarrow> extension_loop fl rnd is st')"

definition generate_sequence ::
  "(real \<Rightarrow> real) \<Rightarrow> (nat \<Rightarrow> real) \<Rightarrow> int \<Rightarrow> gen_state \<Rightarrow> error + (nat list \<times> gen_state)" where
  "generate_sequence fl rnd N st =
     (case seed_step fl rnd st of
        Inl e \<Rightarrow> Inl e
      | Inr st' \<Rightarrow> extension_loop fl rnd [2..<nat N] st')"

subsection \<open>generate\_sequences\<close>

text \<open>\<^verbatim>\<open>for i in range(M)\<close>: the remaining number of iterations counts down.\<close>

fun sequences_loop ::
  "(real \<Rightarrow> real) \<Rightarrow> (nat \<Rightarrow> real) \<Rightarrow> int \<Rightarrow> nat \<Rightarrow> nat list list \<times> gen_state \<Rightarrow>
     error + (nat list list \<times> gen_state)" where
  "sequences_loop fl rnd N 0 acc = Inr acc"
| "sequences_loop fl rnd N (Suc m) acc =
     (case acc of (sequences, st) \<Rightarrow>
        (case generate_sequence fl rnd N st of
           Inl e \<Rightarrow> Inl e
         | Inr (sequence, st') \<Rightarrow> sequences_loop fl rnd N m (sequences @ [sequence], st')))"

definition generate_sequences ::
  "(real \<Rightarrow> real) \<Rightarrow> (nat \<Rightarrow> real) \<Rightarrow> int \<Rightarrow> int \<Rightarrow> gen_state \<Rightarrow>
     error + (nat list list \<times> gen_state)" where
  "generate_sequences fl rnd N M st = sequences_loop fl rnd N (nat M) ([], st)"

subsection \<open>calculate\_transition\_probability\_matrix\<close>

text \<open>
  A float64 result of a numpy division: a finite value, an infinity, or NaN. Dividing
  by zero does not raise in numpy.
\<close>

datatype npfloat = Fin real | PosInf | NegInf | NaN

definition np_divide :: "real \<Rightarrow> real \<Rightarrow> npfloat" where
  "np_divide x s =
     (if s \<noteq> 0 then Fin (x / s)
      else if x = 0 then NaN
      else if 0 < x then PosInf else NegInf)"

text \<open>\<^verbatim>\<open>np.zeros((N, N))\<close>.\<close>

definition zeros :: "nat \<Rightarrow> matrix" where
  "zeros n = replicate n (replicate n 0)"

text \<open>
  Line 97, \<^verbatim>\<open>tpm[sequence[i], sequence[i+1]] += 1\<close>: reading the sequence or the
  array outside its range raises IndexError.
\<close>

definition count_transition :: "nat list \<Rightarrow> nat \<Rightarrow> matrix \<Rightarrow> error + matrix" where
  "count_transition sequence i tpm =
     (if length sequence \<le> i + 1 then Inl IndexError
      else if length tpm \<le> sequence ! i then Inl IndexError
      else if length (tpm ! (sequence ! i)) \<le> sequence ! (i + 1) then Inl IndexError
      else Inr (tpm[sequence ! i :=
                  (tpm ! (sequence ! i))[sequence ! (i + 1) :=
                     tpm ! (sequence ! i) ! (sequence ! (i + 1)) + 1]]))"

text \<open>\<^verbatim>\<open>for i in range(N-1)\<close> over one sequence.\<close>

fun count_sequence :: "nat list \<Rightarrow> nat list \<Rightarrow> matrix \<Rightarrow> error + matrix" where
  "count_sequence sequence [] tpm = Inr tpm"
| "count_sequence sequence (i # is) tpm =
     (case count_transition sequence i tpm of
        Inl e \<Rightarrow> Inl e
      | Inr tpm' \<Rightarrow> count_sequence sequence is tpm')"

text \<open>\<^verbatim>\<open>for sequence in sequences\<close>.\<close>

fun count_sequences :: "nat \<Rightarrow> nat list list \<Rightarrow> matrix \<Rightarrow> error + matrix" where
  "count_sequences n [] tpm = Inr tpm"
| "count_sequences n (sequence # sequences) tpm =
     (case count_sequence sequence [0..<n - 1] tpm of
        Inl e \<Rightarrow> Inl e
      | Inr tpm' \<Rightarrow> count_sequences n sequences tpm')"

text \<open>Lines 98 and 99: every row is divided by its own sum.\<close>

definition normalize_rows :: "matrix \<Rightarrow> npfloat list list" where
  "normalize_rows tpm = map (\<lambda>row. map (\<lambda>v. np_divide v (sum_list row)) row) tpm"

definition calculate_transition_probability_matrix ::
  "nat list list \<Rightarrow> error + npfloat list list" where
  "calculate_transition_probability_matrix sequences =
     (case sequences of
        [] \<Rightarrow> Inl IndexError
      | first # _ \<Rightarrow>
          (case count_sequences (length first) sequences (zeros (length first)) of
             Inl e \<Rightarrow> Inl e
           | Inr tpm \<Rightarrow> Inr (normalize_rows tpm)))"

subsection \<open>generate\_balanced\_sequences\<close>

text \<open>
  What the pipeline writes: the output is the list of files written so far. Nothing is
  written before the three computations have succeeded.
\<close>

datatype artifact =
    Directory
  | SequencesCsv "nat list list"
  | MatrixCsv "npfloat list list"
  | MatrixPng "npfloat list list"

type_synonym filesystem = "(string \<times> artifact) list"

definition create_subfolder :: "string \<Rightarrow> filesystem \<Rightarrow> filesystem" where
  "create_subfolder subfolder fs =
     (if subfolder \<in> fst ` set fs then fs else fs @ [(subfolder, Directory)])"

definition generate_balanced_sequences ::
  "(real \<Rightarrow> real) \<Rightarrow> (nat \<Rightarrow> real) \<Rightarrow> (nat \<Rightarrow> real) \<Rightarrow> int \<Rightarrow> int \<Rightarrow> string \<Rightarrow> filesystem \<Rightarrow>
     error option \<times> filesystem" where
  "generate_balanced_sequences fl nprnd rnd N M subfolder fs =
     (case initialize_markov_chain nprnd N of
        Inl e \<Rightarrow> (Some e, fs)
      | Inr markov_chain \<Rightarrow>
          (case generate_sequences fl rnd N M (markov_chain, 0) of
             Inl e \<Rightarrow> (Some e, fs)
           | Inr (sequences, _) \<Rightarrow>
               (case calculate_transition_probability_matrix sequences of
                  Inl e \<Rightarrow> (Some e, fs)
                | Inr transition_probability_matrix \<Rightarrow>
                    (None,
                     create_subfolder subfolder fs @
                       [(subfolder @ ''/sequences.csv'', SequencesCsv sequences),
                        (subfolder @ ''/sequences_transition_matrix.csv'',
                           MatrixCsv transition_probability_matrix),
                        (subfolder @ ''/sequences_transition_matrix.png'',
                           MatrixPng transition_probability_matrix)]))))"

subsection \<open>Predicates and reference definitions used by the theorems\<close>

text \<open>An \<open>n \<times> n\<close> array.\<close>

definition square :: "nat \<Rightarrow> matrix \<Rightarrow> bool" where
  "square n a = (length a = n \<and> list_all (\<lambda>row. length row = n) a)"

text \<open>Every diagonal cell is exactly zero.\<close>

definition zero_diagonal :: "matrix \<Rightarrow> bool" where
  "zero_diagonal a = list_all (\<lambda>i. i < length (a ! i) \<longrightarrow> a ! i ! i = 0) [0..<length a]"

text \<open>Every off-diagonal cell is positive.\<close>

definition positive_off_diagonal :: "matrix \<Rightarrow> bool" where
  "positive_off_diagonal a =
     list_all (\<lambda>r. list_all (\<lambda>c. r \<noteq> c \<longrightarrow> 0 < a ! r ! c) [0..<length (a ! r)])
       [0..<length a]"

text \<open>Row-major order of coordinates: the order of a scan of the flattened array.\<close>

definition row_major_before :: "nat \<times> nat \<Rightarrow> nat \<times> nat \<Rightarrow> bool" where
  "row_major_before p q = (fst p < fst q \<or> (fst p = fst q \<and> snd p < snd q))"

text \<open>
  One reinforcement per listed transition, in order, each with the next draw of the
  stream, starting at position \<open>k\<close>.
\<close>

fun apply_reinforcements ::
  "(real \<Rightarrow> real) \<Rightarrow> (nat \<Rightarrow> real) \<Rightarrow> nat \<Rightarrow> (nat \<times> nat) list \<Rightarrow> matrix \<Rightarrow> matrix" where
  "apply_reinforcements fl rnd k [] a = a"
| "apply_reinforcements fl rnd k ((r, c) # ts) a =
     apply_reinforcements fl rnd (Suc k) ts (reinforce fl a r c (rnd k))"

text \<open>
  The transition probability matrix in the words of the specification. The count of
  the transition \<open>(a, b)\<close> is the number of consecutive pairs \<open>(s[i], s[i+1])\<close>,
  over all sequences \<open>s\<close> of the set, that are equal to \<open>(a, b)\<close>.
\<close>

definition transition_count :: "nat list list \<Rightarrow> nat \<Rightarrow> nat \<Rightarrow> nat" where
  "transition_count sequences a b =
     sum_list (map (\<lambda>s. count_list (zip s (tl s)) (a, b)) sequences)"

text \<open>The sum of row \<open>a\<close> of the \<open>n \<times> n\<close> matrix of counts.\<close>

definition row_total :: "nat \<Rightarrow> nat list list \<Rightarrow> nat \<Rightarrow> real" where
  "row_total n sequences a = sum_list (map (\<lambda>b. real (transition_count sequences a b)) [0..<n])"

text \<open>Each count divided by the sum of its row.\<close>

definition spec_transition_probability_matrix :: "nat \<Rightarrow> nat list list \<Rightarrow> npfloat list list" where
  "spec_transition_probability_matrix n sequences =
     map (\<lambda>a. map (\<lambda>b. np_divide (real (transition_count sequences a b))
                                   (row_total n sequences a)) [0..<n]) [0..<n]"

subsection \<open>Concrete inputs\<close>

text \<open>
  A rounding for the concrete runs: to the nearest multiple of \<open>2\<^sup>-\<^sup>5\<^sup>2\<close>, the spacing
  of float64 on \<open>[1, 2)\<close>.
\<close>

definition example_fl :: "real \<Rightarrow> real" where
  "example_fl x = of_int (round (x * 2 ^ 52)) / 2 ^ 52"

text \<open>
  Two streams of draws and the \<open>3 \<times> 3\<close> matrix the initializer builds from the
  first: the theorems below are run on them.
\<close>

definition example_nprnd :: "nat \<Rightarrow> real" where
  "example_nprnd k = (real k + 1) / 10"

definition example_rnd :: "nat \<Rightarrow> real" where
  "example_rnd k = 1 / 2"

definition example_matrix :: matrix where
  "example_matrix = [[0, 1 / 5, 3 / 10], [2 / 5, 0, 3 / 5], [7 / 10, 4 / 5, 0]]"

text \<open>
  The matrix after the seed update of the first sequence, after the whole first
  sequence, and after both sequences of a run with \<open>N = 3\<close> and \<open>M = 2\<close>.
\<close>

definition example_after_seed :: matrix where
  "example_after_seed = [[0, 3 / 2, 3 / 10], [2 / 5, 0, 3 / 5], [7 / 10, 4 / 5, 0]]"

definition example_after_first :: matrix where
  "example_after_first = [[0, 3 / 2, 3 / 10], [3 / 2, 0, 3 / 5], [7 / 10, 4 / 5, 0]]"

definition example_after_run :: matrix where
  "example_after_run = [[0, 3 / 2, 3 / 2], [3 / 2, 0, 3 / 5], [3 / 2, 4 / 5, 0]]"

text \<open>
  A cell holding \<open>0.5\<close> reinforced with the largest draw below 1, \<open>1 - 2\<^sup>-\<^sup>5\<^sup>3\<close>:
  the sum \<open>2 - 2\<^sup>-\<^sup>5\<^sup>3\<close> is stored as \<open>2\<close>.
\<close>

definition near_one_rnd :: "nat \<Rightarrow> real" where
  "near_one_rnd k = 1 - 1 / 2 ^ 53"

definition half_matrix :: matrix where
  "half_matrix = [[0, 1 / 2], [3 / 4, 0]]"

definition half_after_seed :: matrix where
  "half_after_seed = [[0, 2], [3 / 4, 0]]"

text \<open>
  A stream of the initializer whose second draw is exactly \<open>0\<close>, the matrix built
  from it, and that matrix after the seed update.
\<close>

definition zero_draw_nprnd :: "nat \<Rightarrow> real" where
  "zero_draw_nprnd k = (if k = 1 then 0 else (real k + 1) / 10)"

definition zero_draw_matrix :: matrix where
  "zero_draw_matrix = [[0, 0, 3 / 10], [2 / 5, 0, 3 / 5], [7 / 10, 4 / 5, 0]]"

definition zero_draw_after_seed :: matrix where
  "zero_draw_after_seed = [[0, 0, 3 / 2], [2 / 5, 0, 3 / 5], [7 / 10, 4 / 5, 0]]"

text \<open>The same matrix at the start of the loop of the second sequence, and after it.\<close>

definition zero_draw_second_seed :: matrix where
  "zero_draw_second_seed = [[0, 0, 3 / 2], [3 / 2, 0, 3 / 5], [3 / 2, 4 / 5, 0]]"

definition zero_draw_after_run :: matrix where
  "zero_draw_after_run = [[0, 0, 5 / 2], [3 / 2, 0, 3 / 5], [3 / 2, 4 / 5, 0]]"

section \<open>Properties of the search and of the update\<close>

lemma np_min_Inr: "np_min vs = Inr m \<Longrightarrow> m \<in> set vs \<and> (\<forall>v\<in>set vs. m \<le> v)"
  by (auto simp: np_min_def min_list_Min split: if_splits)

lemma np_min_Inl: "np_min vs = Inl e \<Longrightarrow> vs = [] \<and> e = ValueError"
  by (auto simp: np_min_def split: if_splits)

lemma set_argwhere:
  "set (argwhere a v) = {(r, c). r < length a \<and> c < length (a ! r) \<and> a ! r ! c = v}"
  by (auto simp: argwhere_def)

lemma set_argwhere_row: "set (argwhere_row row v) = {c. c < length row \<and> row ! c = v}"
  by (auto simp: argwhere_row_def)

lemma in_concat_nth:
  "v \<in> set (concat a) \<longleftrightarrow> (\<exists>r c. r < length a \<and> c < length (a ! r) \<and> a ! r ! c = v)"
proof
  assume "v \<in> set (concat a)"
  then obtain row where row: "row \<in> set a" "v \<in> set row" by auto
  from row(1) obtain r where "r < length a" "a ! r = row" by (auto simp: in_set_conv_nth)
  moreover from row(2) obtain c where "c < length row" "row ! c = v"
    by (auto simp: in_set_conv_nth)
  ultimately show "\<exists>r c. r < length a \<and> c < length (a ! r) \<and> a ! r ! c = v" by blast
next
  assume "\<exists>r c. r < length a \<and> c < length (a ! r) \<and> a ! r ! c = v"
  then obtain r c where "r < length a" "c < length (a ! r)" "a ! r ! c = v" by blast
  then have "a ! r \<in> set a" "v \<in> set (a ! r)" by auto
  then show "v \<in> set (concat a)" by auto
qed

lemma set_nonzero_cells:
  "set (nonzero_cells a) = {v. v \<noteq> 0 \<and> (\<exists>r c. r < length a \<and> c < length (a ! r) \<and> a ! r ! c = v)}"
  by (auto simp: nonzero_cells_def in_concat_nth simp del: set_concat)

lemma set_nonzero_row:
  "set (nonzero_row row) = {v. v \<noteq> 0 \<and> (\<exists>c. c < length row \<and> row ! c = v)}"
  by (auto simp: nonzero_row_def in_set_conv_nth)

lemma seed_step_Inr:
  assumes "seed_step fl rnd (a, k) = Inr (s, a', k')"
  shows "\<exists>r c. s = [r, c] \<and> r < length a \<and> c < length (a ! r) \<and> a ! r ! c \<noteq> 0
            \<and> a' = reinforce fl a r c (rnd k) \<and> k' = Suc k"
proof -
  from assms obtain m where m: "np_min (nonzero_cells a) = Inr m"
    by (auto simp: seed_step_def split: sum.splits)
  with assms obtain r c rest where rc: "argwhere a m = (r, c) # rest"
    and res: "s = [r, c]" "a' = reinforce fl a r c (rnd k)" "k' = Suc k"
    by (auto simp: seed_step_def split: list.splits)
  from rc have "(r, c) \<in> set (argwhere a m)" by simp
  then have in_range: "r < length a" "c < length (a ! r)" "a ! r ! c = m"
    by (auto simp: set_argwhere)
  from m have "m \<in> set (nonzero_cells a)" by (simp add: np_min_Inr)
  then have "m \<noteq> 0" by (simp add: set_nonzero_cells)
  with in_range res show ?thesis by blast
qed

lemma loop_body_Inr:
  assumes "loop_body fl rnd i (s, a, k) = Inr (s', a', k')"
  shows "i - 1 < length s \<and> s ! (i - 1) < length a \<and>
         (\<exists>c. c < length (a ! (s ! (i - 1))) \<and> a ! (s ! (i - 1)) ! c \<noteq> 0 \<and> s' = s @ [c]
            \<and> a' = reinforce fl a (s ! (i - 1)) c (rnd k) \<and> k' = Suc k)"
proof -
  let ?p = "s ! (i - 1)"
  from assms have rng: "i - 1 < length s" "?p < length a"
    by (auto simp: loop_body_def split: if_splits)
  with assms obtain m where m: "np_min (nonzero_row (a ! ?p)) = Inr m"
    by (auto simp: loop_body_def split: sum.splits)
  with assms rng obtain c rest where c: "argwhere_row (a ! ?p) m = c # rest"
    and res: "s' = s @ [c]" "a' = reinforce fl a ?p c (rnd k)" "k' = Suc k"
    by (auto simp: loop_body_def split: list.splits)
  from c have "c \<in> set (argwhere_row (a ! ?p) m)" by simp
  then have cr: "c < length (a ! ?p)" "a ! ?p ! c = m"
    by (auto simp: set_argwhere_row)
  from m have "m \<in> set (nonzero_row (a ! ?p))" by (simp add: np_min_Inr)
  then have "m \<noteq> 0" by (simp add: set_nonzero_row)
  with rng cr res show ?thesis by blast
qed

lemma length_reinforce [simp]: "length (reinforce fl a r c x) = length a"
  by (simp add: reinforce_def)

lemma length_row_reinforce [simp]: "length (reinforce fl a r c x ! i) = length (a ! i)"
  by (cases "r < length a"; cases "i = r") (simp_all add: reinforce_def not_less list_update_beyond)

lemma reinforce_other:
  "i \<noteq> r \<or> j \<noteq> c \<Longrightarrow> reinforce fl a r c x ! i ! j = a ! i ! j"
  by (cases "r < length a"; cases "i = r") (auto simp: reinforce_def not_less list_update_beyond)

lemma reinforce_cell:
  "r < length a \<Longrightarrow> c < length (a ! r) \<Longrightarrow>
     reinforce fl a r c x ! r ! c = fl (of_int \<lceil>a ! r ! c\<rceil> + x)"
  by (simp add: reinforce_def)

lemma square_reinforce: "square n a \<Longrightarrow> square n (reinforce fl a r c x)"
  by (auto simp: square_def list_all_length)

lemma zero_diagonal_reinforce:
  "zero_diagonal a \<Longrightarrow> r \<noteq> c \<Longrightarrow> zero_diagonal (reinforce fl a r c x)"
  by (auto simp: zero_diagonal_def list_all_iff reinforce_other)

lemma zero_diagonal_picked:
  "zero_diagonal a \<Longrightarrow> r < length a \<Longrightarrow> c < length (a ! r) \<Longrightarrow> a ! r ! c \<noteq> 0 \<Longrightarrow> r \<noteq> c"
  by (auto simp: zero_diagonal_def list_all_iff)

lemma extension_loop_rule:
  assumes "extension_loop fl rnd [i..<n] st = Inr st'" and "P i st" and "i \<le> n"
    and step: "\<And>j t t'. j < n \<Longrightarrow> P j t \<Longrightarrow> loop_body fl rnd j t = Inr t' \<Longrightarrow> P (Suc j) t'"
  shows "P n st'"
  using assms(1-3)
proof (induction "n - i" arbitrary: i st)
  case 0
  then show ?case by simp
next
  case (Suc d)
  then have lt: "i < n" by simp
  then have upt: "[i..<n] = i # [Suc i..<n]" by (simp add: upt_conv_Cons)
  with Suc.prems(1) obtain t where t: "loop_body fl rnd i st = Inr t"
    and rest: "extension_loop fl rnd [Suc i..<n] t = Inr st'"
    by (auto split: sum.splits)
  have "P (Suc i) t" using step[OF lt Suc.prems(2) t] .
  moreover have "d = n - Suc i" using Suc.hyps(2) by simp
  ultimately show ?case
    using Suc.hyps(1)[of "Suc i" t] rest lt step by simp
qed

lemma apply_reinforcements_snoc:
  "apply_reinforcements fl rnd k (ts @ [(r, c)]) a =
     reinforce fl (apply_reinforcements fl rnd k ts a) r c (rnd (k + length ts))"
  by (induction fl rnd k ts a rule: apply_reinforcements.induct) simp_all

lemma zip_tl_snoc: "s \<noteq> [] \<Longrightarrow> zip (s @ [c]) (tl (s @ [c])) = zip s (tl s) @ [(last s, c)]"
  by (induction s) (auto simp: neq_Nil_conv)

lemma apply_reinforcements_other:
  "(r, c) \<notin> set ts \<Longrightarrow> apply_reinforcements fl rnd k ts a ! r ! c = a ! r ! c"
  by (induction fl rnd k ts a rule: apply_reinforcements.induct) (auto simp: reinforce_other)

lemma apply_reinforcements_shape:
  "length (apply_reinforcements fl rnd k ts a) = length a \<and>
   map length (apply_reinforcements fl rnd k ts a) = map length a"
proof (induction fl rnd k ts a rule: apply_reinforcements.induct)
  case (1 fl rnd k a)
  then show ?case by simp
next
  case (2 fl rnd k r c ts a)
  have "map length (reinforce fl a r c (rnd k)) = map length a"
    by (rule nth_equalityI) simp_all
  with 2 show ?case by simp
qed

text \<open>
  What a successful call of the builder returns: the loop invariant is that at index
  \<open>j\<close> the sequence has \<open>j\<close> elements and one draw was used per transition.
\<close>

lemma generate_sequence_Inr:
  assumes "generate_sequence fl rnd N (a, k) = Inr (s, a', k')"
  shows "length s = max 2 (nat N) \<and> k' = k + (length s - 1)
         \<and> a' = apply_reinforcements fl rnd k (zip s (tl s)) a"
proof -
  from assms obtain s1 a1 k1 where seed: "seed_step fl rnd (a, k) = Inr (s1, a1, k1)"
    and loop: "extension_loop fl rnd [2..<nat N] (s1, a1, k1) = Inr (s, a', k')"
    by (auto simp: generate_sequence_def split: sum.splits)
  from seed_step_Inr[OF seed] obtain r c where rc: "s1 = [r, c]"
    "a1 = reinforce fl a r c (rnd k)" "k1 = Suc k" by blast
  let ?P = "\<lambda>j (t :: nat list \<times> gen_state). case t of (s, b, l) \<Rightarrow>
     length s = j \<and> 2 \<le> j \<and> l = k + (j - 1)
     \<and> b = apply_reinforcements fl rnd k (zip s (tl s)) a"
  have init: "?P 2 (s1, a1, k1)" using rc by simp
  have step: "?P (Suc j) t'" if "j < nat N" "?P j t" "loop_body fl rnd j t = Inr t'" for j t t'
  proof -
    obtain s b l where t: "t = (s, b, l)" by (cases t) auto
    obtain s' b' l' where t': "t' = (s', b', l')" by (cases t') auto
    from that(2) t have inv: "length s = j" "2 \<le> j" "l = k + (j - 1)"
      "b = apply_reinforcements fl rnd k (zip s (tl s)) a" by auto
    from loop_body_Inr[OF that(3)[unfolded t t']] obtain c where
      c: "s' = s @ [c]" "b' = reinforce fl b (s ! (j - 1)) c (rnd l)" "l' = Suc l" by blast
    from inv have ne: "s \<noteq> []" by auto
    have lst: "s ! (j - 1) = last s" using inv(1) ne by (simp add: last_conv_nth)
    have len: "length (zip s (tl s)) = j - 1" using inv(1) by simp
    have z: "zip s' (tl s') = zip s (tl s) @ [(last s, c)]"
      unfolding c(1) by (rule zip_tl_snoc[OF ne])
    have "b' = apply_reinforcements fl rnd k (zip s' (tl s')) a"
      unfolding z apply_reinforcements_snoc len using c(2) inv(3,4) lst by simp
    moreover have "length s' = Suc j" "l' = k + (Suc j - 1)" using c inv by auto
    ultimately show ?thesis unfolding t' using inv(2) by simp
  qed
  show ?thesis
  proof (cases "2 \<le> nat N")
    case True
    have "?P (nat N) (s, a', k')"
    proof (rule extension_loop_rule[where P = ?P, OF loop init True])
      fix j t t'
      assume "j < nat N" "?P j t" "loop_body fl rnd j t = Inr t'"
      then show "?P (Suc j) t'" by (rule step)
    qed
    then show ?thesis using True by auto
  next
    case False
    then have "[2..<nat N] = []" by simp
    with loop rc False show ?thesis by auto
  qed
qed

lemma seed_step_invariants:
  assumes "seed_step fl rnd (a, k) = Inr (s, a', k')"
  shows "(square n a \<longrightarrow> square n a' \<and> (\<forall>x\<in>set s. x < n))
       \<and> (zero_diagonal a \<longrightarrow> zero_diagonal a' \<and> distinct_adj s)"
proof -
  from seed_step_Inr[OF assms] obtain r c where rc: "s = [r, c]" "r < length a"
    "c < length (a ! r)" "a ! r ! c \<noteq> 0" "a' = reinforce fl a r c (rnd k)" by blast
  have "r < n \<and> c < n" if "square n a"
    using that rc(2,3) by (auto simp: square_def list_all_length)
  moreover have "r \<noteq> c" if "zero_diagonal a"
    using zero_diagonal_picked[OF that rc(2,3,4)] .
  ultimately show ?thesis
    using rc(1,5) by (auto simp: square_reinforce zero_diagonal_reinforce)
qed

lemma loop_body_invariants:
  assumes "loop_body fl rnd i (s, a, k) = Inr (s', a', k')" and "length s = i" and "s \<noteq> []"
  shows "(square n a \<and> (\<forall>x\<in>set s. x < n) \<longrightarrow> square n a' \<and> (\<forall>x\<in>set s'. x < n))
       \<and> (zero_diagonal a \<and> distinct_adj s \<longrightarrow> zero_diagonal a' \<and> distinct_adj s')"
proof -
  let ?p = "s ! (i - 1)"
  from loop_body_Inr[OF assms(1)] obtain c where c: "?p < length a" "c < length (a ! ?p)"
    "a ! ?p ! c \<noteq> 0" "s' = s @ [c]" "a' = reinforce fl a ?p c (rnd k)" by blast
  have lst: "?p = last s" using assms(2,3) by (simp add: last_conv_nth)
  have "c < n" if "square n a"
    using that c(1,2) by (auto simp: square_def list_all_length)
  moreover have "?p \<noteq> c" if "zero_diagonal a"
    using zero_diagonal_picked[OF that c(1,2,3)] .
  ultimately show ?thesis
    using c(4,5) assms(3) lst
    by (auto simp: square_reinforce zero_diagonal_reinforce distinct_adj_append_iff)
qed

lemma generate_sequence_invariants:
  assumes "generate_sequence fl rnd N (a, k) = Inr (s, a', k')"
  shows "(square n a \<longrightarrow> square n a' \<and> (\<forall>x\<in>set s. x < n))
       \<and> (zero_diagonal a \<longrightarrow> zero_diagonal a' \<and> distinct_adj s)"
proof -
  from assms obtain s1 a1 k1 where seed: "seed_step fl rnd (a, k) = Inr (s1, a1, k1)"
    and loop: "extension_loop fl rnd [2..<nat N] (s1, a1, k1) = Inr (s, a', k')"
    by (auto simp: generate_sequence_def split: sum.splits)
  from seed_step_Inr[OF seed] have len1: "length s1 = 2" by auto
  note seed_inv = seed_step_invariants[OF seed, of n]
  let ?P = "\<lambda>j (t :: nat list \<times> gen_state). case t of (s, b, l) \<Rightarrow>
     length s = j \<and> 2 \<le> j
     \<and> (square n a \<longrightarrow> square n b \<and> (\<forall>x\<in>set s. x < n))
     \<and> (zero_diagonal a \<longrightarrow> zero_diagonal b \<and> distinct_adj s)"
  have init: "?P 2 (s1, a1, k1)" using len1 seed_inv by simp
  have step: "?P (Suc j) t'" if "j < nat N" "?P j t" "loop_body fl rnd j t = Inr t'" for j t t'
  proof -
    obtain s b l where t: "t = (s, b, l)" by (cases t) auto
    obtain s' b' l' where t': "t' = (s', b', l')" by (cases t') auto
    from that(2) t have inv: "length s = j" "2 \<le> j"
      "square n a \<longrightarrow> square n b \<and> (\<forall>x\<in>set s. x < n)"
      "zero_diagonal a \<longrightarrow> zero_diagonal b \<and> distinct_adj s" by auto
    from inv have ne: "s \<noteq> []" by auto
    from loop_body_Inr[OF that(3)[unfolded t t']] have len': "length s' = Suc j"
      using inv(1) by auto
    note li = loop_body_invariants[OF that(3)[unfolded t t'] inv(1) ne, of n]
    have sq: "square n b' \<and> (\<forall>x\<in>set s'. x < n)" if "square n a"
      using that inv(3) li by blast
    have zd: "zero_diagonal b' \<and> distinct_adj s'" if "zero_diagonal a"
      using that inv(4) li by blast
    have "2 \<le> Suc j" using inv(2) by simp
    with len' sq zd show ?thesis unfolding t' prod.case by blast
  qed
  show ?thesis
  proof (cases "2 \<le> nat N")
    case True
    have "?P (nat N) (s, a', k')"
    proof (rule extension_loop_rule[where P = ?P, OF loop init True])
      fix j t t'
      assume "j < nat N" "?P j t" "loop_body fl rnd j t = Inr t'"
      then show "?P (Suc j) t'" by (rule step)
    qed
    then show ?thesis by auto
  next
    case False
    then have "[2..<nat N] = []" by simp
    with loop seed_inv show ?thesis by auto
  qed
qed

lemma sequences_loop_rule:
  assumes "sequences_loop fl rnd N m (seqs, st) = Inr (seqs', st')" and "P seqs st"
    and step: "\<And>seqs st s st'. P seqs st \<Longrightarrow> generate_sequence fl rnd N st = Inr (s, st')
                 \<Longrightarrow> P (seqs @ [s]) st'"
  shows "P seqs' st'"
  using assms(1,2)
proof (induction m arbitrary: seqs st)
  case 0
  then show ?case by simp
next
  case (Suc m)
  from Suc.prems(1) obtain s st1 where g: "generate_sequence fl rnd N st = Inr (s, st1)"
    and rest: "sequences_loop fl rnd N m (seqs @ [s], st1) = Inr (seqs', st')"
    by (auto split: sum.splits)
  from step[OF Suc.prems(2) g] have "P (seqs @ [s]) st1" .
  with Suc.IH[OF rest] show ?case .
qed

lemma generate_sequences_Inr:
  assumes "generate_sequences fl rnd N M (a, k) = Inr (seqs, a', k')"
  shows "length seqs = nat M
       \<and> (\<forall>s\<in>set seqs. length s = max 2 (nat N))
       \<and> k' = k + nat M * (max 2 (nat N) - 1)
       \<and> (square n a \<longrightarrow> square n a' \<and> (\<forall>s\<in>set seqs. \<forall>x\<in>set s. x < n))
       \<and> (zero_diagonal a \<longrightarrow> zero_diagonal a' \<and> (\<forall>s\<in>set seqs. distinct_adj s))"
proof -
  let ?P = "\<lambda>sq (t :: gen_state). case t of (b, l) \<Rightarrow>
       (\<forall>s\<in>set sq. length s = max 2 (nat N))
       \<and> l = k + length sq * (max 2 (nat N) - 1)
       \<and> (square n a \<longrightarrow> square n b \<and> (\<forall>s\<in>set sq. \<forall>x\<in>set s. x < n))
       \<and> (zero_diagonal a \<longrightarrow> zero_diagonal b \<and> (\<forall>s\<in>set sq. distinct_adj s))"
  have len: "length seqs' = length sq + m"
    if "sequences_loop fl rnd N m (sq, t) = Inr (seqs', t')" for m sq t seqs' t'
    using that
  proof (induction m arbitrary: sq t)
    case 0
    then show ?case by simp
  next
    case (Suc m)
    then show ?case by (auto split: sum.splits prod.splits)
  qed
  from assms have loop: "sequences_loop fl rnd N (nat M) ([], (a, k)) = Inr (seqs, (a', k'))"
    by (simp add: generate_sequences_def)
  have init: "?P [] (a, k)" by simp
  have step: "?P (sq @ [s]) t'" if "?P sq t" "generate_sequence fl rnd N t = Inr (s, t')"
    for sq t s t'
  proof -
    obtain b l where t: "t = (b, l)" by (cases t) auto
    obtain b' l' where t': "t' = (b', l')" by (cases t') auto
    note g = that(2)[unfolded t t']
    from that(1) t have inv: "\<forall>s\<in>set sq. length s = max 2 (nat N)"
      "l = k + length sq * (max 2 (nat N) - 1)"
      "square n a \<longrightarrow> square n b \<and> (\<forall>s\<in>set sq. \<forall>x\<in>set s. x < n)"
      "zero_diagonal a \<longrightarrow> zero_diagonal b \<and> (\<forall>s\<in>set sq. distinct_adj s)"
      by auto
    note gi = generate_sequence_invariants[OF g, of n]
    from generate_sequence_Inr[OF g] have ls: "length s = max 2 (nat N)"
      and l': "l' = l + (length s - 1)" by auto
    have c1: "\<forall>u\<in>set (sq @ [s]). length u = max 2 (nat N)" using inv(1) ls by auto
    have c2: "l' = k + length (sq @ [s]) * (max 2 (nat N) - 1)"
      unfolding l' inv(2) ls by (simp add: ac_simps)
    have c3: "square n b' \<and> (\<forall>u\<in>set (sq @ [s]). \<forall>x\<in>set u. x < n)" if "square n a"
    proof -
      from that inv(3) have "square n b" "\<forall>u\<in>set sq. \<forall>x\<in>set u. x < n" by blast+
      moreover from this(1) gi have "square n b'" "\<forall>x\<in>set s. x < n" by blast+
      ultimately show ?thesis by auto
    qed
    have c4: "zero_diagonal b' \<and> (\<forall>u\<in>set (sq @ [s]). distinct_adj u)" if "zero_diagonal a"
    proof -
      from that inv(4) have "zero_diagonal b" "\<forall>u\<in>set sq. distinct_adj u" by blast+
      moreover from this(1) gi have "zero_diagonal b'" "distinct_adj s" by blast+
      ultimately show ?thesis by auto
    qed
    from c1 c2 c3 c4 show ?thesis unfolding t' prod.case by blast
  qed
  have "?P seqs (a', k')"
  proof (rule sequences_loop_rule[where P = ?P, OF loop init])
    fix sq t s t'
    assume "?P sq t" "generate_sequence fl rnd N t = Inr (s, t')"
    then show "?P (sq @ [s]) t'" by (rule step)
  qed
  with len[OF loop] show ?thesis by simp
qed

lemma initialize_markov_chain_Inr:
  assumes "initialize_markov_chain nprnd N = Inr a"
  shows "0 \<le> N \<and> square (nat N) a \<and> zero_diagonal a"
proof -
  from assms have N: "0 \<le> N" and a: "a = fill_diagonal (map (\<lambda>i. map (\<lambda>j. nprnd (i * nat N + j)) [0..<nat N]) [0..<nat N]) 0"
    by (auto simp: initialize_markov_chain_def random_rand_def split: if_splits)
  have "square (nat N) a" unfolding a
    by (auto simp: square_def fill_diagonal_def list_all_iff)
  moreover have "zero_diagonal a" unfolding a
    by (auto simp: zero_diagonal_def fill_diagonal_def list_all_iff)
  ultimately show ?thesis using N by simp
qed

lemma seed_step_zero_diagonal:
  assumes "zero_diagonal a" and "seed_step fl rnd (a, k) = Inr (s, a', k')"
  shows "zero_diagonal a'"
  using seed_step_invariants[OF assms(2), of 0] assms(1) by simp

lemma loop_body_zero_diagonal:
  assumes "zero_diagonal a" and "loop_body fl rnd i (s, a, k) = Inr (s', a', k')"
  shows "zero_diagonal a'"
proof -
  let ?p = "s ! (i - 1)"
  from loop_body_Inr[OF assms(2)] obtain c where c: "?p < length a" "c < length (a ! ?p)"
    "a ! ?p ! c \<noteq> 0" "a' = reinforce fl a ?p c (rnd k)" by blast
  from zero_diagonal_picked[OF assms(1) c(1,2,3)] have "?p \<noteq> c" .
  with assms(1) c(4) show ?thesis by (simp add: zero_diagonal_reinforce)
qed

lemma apply_reinforcements_zero_diagonal:
  "zero_diagonal a \<Longrightarrow> \<forall>(r, c)\<in>set ts. r \<noteq> c \<Longrightarrow>
     zero_diagonal (apply_reinforcements fl rnd k ts a)"
  by (induction fl rnd k ts a rule: apply_reinforcements.induct)
     (auto simp: zero_diagonal_reinforce)

lemma distinct_adj_transitions:
  assumes "distinct_adj s" and "(r, c) \<in> set (zip s (tl s))"
  shows "r \<noteq> c"
proof -
  from assms(2) obtain i where i: "i < length (zip s (tl s))" "zip s (tl s) ! i = (r, c)"
    by (auto simp: in_set_conv_nth)
  then have "Suc i < length s" "r = s ! i" "c = s ! Suc i" by (auto simp: nth_tl)
  with distinct_adj_nth[OF assms(1)] show ?thesis by simp
qed

text \<open>A matrix with no nonzero cell makes the seed search fail.\<close>

lemma seed_step_no_nonzero:
  "nonzero_cells a = [] \<Longrightarrow> seed_step fl rnd (a, k) = Inl ValueError"
  by (simp add: seed_step_def np_min_def)

lemma generate_sequence_no_nonzero:
  "nonzero_cells a = [] \<Longrightarrow> generate_sequence fl rnd N (a, k) = Inl ValueError"
  by (simp add: generate_sequence_def seed_step_no_nonzero)

lemma generate_sequences_first_fails:
  assumes "generate_sequence fl rnd N st = Inl e" and "1 \<le> M"
  shows "generate_sequences fl rnd N M st = Inl e"
proof -
  from assms(2) obtain m where "nat M = Suc m" by (cases "nat M") auto
  with assms(1) show ?thesis by (simp add: generate_sequences_def)
qed

lemma initialize_small:
  assumes "0 \<le> N" and "N < 2"
  shows "\<exists>a. initialize_markov_chain nprnd N = Inr a \<and> square (nat N) a \<and> nonzero_cells a = []"
proof -
  from assms have "nat N = 0 \<or> nat N = 1" by auto
  then show ?thesis
  proof
    assume "nat N = 0"
    with assms(1) show ?thesis
      by (simp add: initialize_markov_chain_def random_rand_def fill_diagonal_def square_def
          nonzero_cells_def)
  next
    assume "nat N = 1"
    with assms(1) show ?thesis
      by (simp add: initialize_markov_chain_def random_rand_def fill_diagonal_def square_def
          nonzero_cells_def)
  qed
qed

text \<open>
  The coordinates returned by \<open>argwhere\<close> come in row-major order, so the first one
  is the first match of a scan.
\<close>

lemma sorted_wrt_concat_map:
  assumes "sorted_wrt Q rs" and "\<forall>r\<in>set rs. sorted_wrt P (g r)"
    and "\<forall>r r'. Q r r' \<longrightarrow> (\<forall>x\<in>set (g r). \<forall>y\<in>set (g r'). P x y)"
  shows "sorted_wrt P (concat (map g rs))"
  using assms(1,2)
proof (induction rs)
  case Nil
  then show ?case by simp
next
  case (Cons r rs)
  then have "sorted_wrt P (g r)" "sorted_wrt P (concat (map g rs))" by simp_all
  moreover have "\<forall>x\<in>set (g r). \<forall>y\<in>set (concat (map g rs)). P x y"
    using Cons.prems(1) assms(3) by auto
  ultimately show ?case by (simp add: sorted_wrt_append)
qed

lemma sorted_wrt_argwhere: "sorted_wrt row_major_before (argwhere a v)"
  unfolding argwhere_def
proof (rule sorted_wrt_concat_map[where Q = "(<)"])
  show "sorted_wrt (<) [0..<length a]" by simp
  show "\<forall>r\<in>set [0..<length a]. sorted_wrt row_major_before
          (map (Pair r) (filter (\<lambda>c. a ! r ! c = v) [0..<length (a ! r)]))"
    by (simp add: sorted_wrt_map row_major_before_def sorted_wrt_filter)
  show "\<forall>r r'. r < r' \<longrightarrow>
          (\<forall>x\<in>set (map (Pair r) (filter (\<lambda>c. a ! r ! c = v) [0..<length (a ! r)])).
           \<forall>y\<in>set (map (Pair r') (filter (\<lambda>c. a ! r' ! c = v) [0..<length (a ! r')])).
             row_major_before x y)"
    by (auto simp: row_major_before_def)
qed

lemma argwhere_first:
  assumes "argwhere a v = (r, c) # rest" and "r' < length a" and "c' < length (a ! r')"
    and "a ! r' ! c' = v"
  shows "r < r' \<or> (r = r' \<and> c \<le> c')"
proof -
  from assms(2,3,4) have "(r', c') \<in> set (argwhere a v)" by (simp add: set_argwhere)
  with assms(1) have "(r', c') = (r, c) \<or> (r', c') \<in> set rest" by auto
  moreover from sorted_wrt_argwhere[of a v] assms(1)
  have "\<forall>q\<in>set rest. row_major_before (r, c) q" by simp
  ultimately show ?thesis by (auto simp: row_major_before_def)
qed

lemma argwhere_row_first:
  assumes "argwhere_row row v = c # rest" and "c' < length row" and "row ! c' = v"
  shows "c \<le> c'"
proof -
  from assms(2,3) have "c' \<in> set (argwhere_row row v)" by (simp add: set_argwhere_row)
  with assms(1) have "c' = c \<or> c' \<in> set rest" by auto
  moreover have "sorted_wrt (<) (argwhere_row row v)"
    unfolding argwhere_row_def by (simp add: sorted_wrt_filter)
  with assms(1) have "\<forall>q\<in>set rest. c < q" by simp
  ultimately show ?thesis by auto
qed

text \<open>What the seed search selects: the least nonzero cell, the first one in row-major order.\<close>

lemma seed_step_selects:
  assumes "seed_step fl rnd (a, k) = Inr (s, a', k')"
  shows "\<exists>r c. s = [r, c] \<and> r < length a \<and> c < length (a ! r) \<and> a ! r ! c \<noteq> 0
           \<and> (\<forall>r' c'. r' < length a \<and> c' < length (a ! r') \<and> a ! r' ! c' \<noteq> 0 \<longrightarrow>
                  a ! r ! c \<le> a ! r' ! c')
           \<and> (\<forall>r' c'. r' < length a \<and> c' < length (a ! r') \<and> a ! r' ! c' = a ! r ! c \<longrightarrow>
                  r < r' \<or> (r = r' \<and> c \<le> c'))"
proof -
  from assms obtain m where m: "np_min (nonzero_cells a) = Inr m"
    by (auto simp: seed_step_def split: sum.splits)
  with assms obtain r c rest where rc: "argwhere a m = (r, c) # rest" and s: "s = [r, c]"
    by (auto simp: seed_step_def split: list.splits)
  from rc have "(r, c) \<in> set (argwhere a m)" by simp
  then have rng: "r < length a" "c < length (a ! r)" "a ! r ! c = m"
    by (auto simp: set_argwhere)
  from np_min_Inr[OF m] have mem: "m \<in> set (nonzero_cells a)"
    and least: "\<forall>v\<in>set (nonzero_cells a). m \<le> v" by simp_all
  from mem have nz: "m \<noteq> 0" by (simp add: set_nonzero_cells)
  have lo: "a ! r ! c \<le> a ! r' ! c'"
    if "r' < length a \<and> c' < length (a ! r') \<and> a ! r' ! c' \<noteq> 0" for r' c'
  proof -
    from that have "a ! r' ! c' \<in> set (nonzero_cells a)" by (auto simp: set_nonzero_cells)
    with least rng(3) show ?thesis by simp
  qed
  have first: "r < r' \<or> (r = r' \<and> c \<le> c')"
    if "r' < length a \<and> c' < length (a ! r') \<and> a ! r' ! c' = a ! r ! c" for r' c'
    using argwhere_first[OF rc, of r' c'] that rng(3) by simp
  from s rng nz lo first show ?thesis by blast
qed

text \<open>What the row search of the loop selects, in the row of the previous element.\<close>

lemma loop_body_selects:
  assumes "loop_body fl rnd i (s, a, k) = Inr (s', a', k')"
  shows "\<exists>c. s' = s @ [c] \<and> c < length (a ! (s ! (i - 1))) \<and> a ! (s ! (i - 1)) ! c \<noteq> 0
           \<and> (\<forall>c'. c' < length (a ! (s ! (i - 1))) \<and> a ! (s ! (i - 1)) ! c' \<noteq> 0 \<longrightarrow>
                  a ! (s ! (i - 1)) ! c \<le> a ! (s ! (i - 1)) ! c')
           \<and> (\<forall>c'. c' < length (a ! (s ! (i - 1)))
                  \<and> a ! (s ! (i - 1)) ! c' = a ! (s ! (i - 1)) ! c \<longrightarrow> c \<le> c')"
proof -
  let ?row = "a ! (s ! (i - 1))"
  from assms have rng: "i - 1 < length s" "s ! (i - 1) < length a"
    by (auto simp: loop_body_def split: if_splits)
  with assms obtain m where m: "np_min (nonzero_row ?row) = Inr m"
    by (auto simp: loop_body_def split: sum.splits)
  with assms rng obtain c rest where c: "argwhere_row ?row m = c # rest" and s': "s' = s @ [c]"
    by (auto simp: loop_body_def split: list.splits)
  from c have "c \<in> set (argwhere_row ?row m)" by simp
  then have cr: "c < length ?row" "?row ! c = m" by (auto simp: set_argwhere_row)
  from np_min_Inr[OF m] have mem: "m \<in> set (nonzero_row ?row)"
    and least: "\<forall>v\<in>set (nonzero_row ?row). m \<le> v" by simp_all
  from mem have nz: "m \<noteq> 0" by (simp add: set_nonzero_row)
  have lo: "?row ! c \<le> ?row ! c'" if "c' < length ?row \<and> ?row ! c' \<noteq> 0" for c'
  proof -
    from that have "?row ! c' \<in> set (nonzero_row ?row)" by (auto simp: set_nonzero_row)
    with least cr(2) show ?thesis by simp
  qed
  have first: "c \<le> c'" if "c' < length ?row \<and> ?row ! c' = ?row ! c" for c'
    using argwhere_row_first[OF c, of c'] that cr(2) by simp
  from s' cr nz lo first show ?thesis by blast
qed

text \<open>
  When the diagonal is zero, every off-diagonal cell is positive and no draw is negative,
  no search runs on an empty selection: generation returns.
\<close>

lemma positive_off_diagonalD:
  "positive_off_diagonal a \<Longrightarrow> r < length a \<Longrightarrow> c < length (a ! r) \<Longrightarrow> r \<noteq> c \<Longrightarrow>
     0 < a ! r ! c"
  by (simp add: positive_off_diagonal_def list_all_iff)

lemma rounded_sum_ge_one:
  fixes fl :: "real \<Rightarrow> real" and v x :: real
  assumes "mono fl" and "fl 1 = 1" and "0 < v" and "0 \<le> x"
  shows "1 \<le> fl (of_int \<lceil>v\<rceil> + x)"
proof -
  from assms(3) have "0 < \<lceil>v\<rceil>" by simp
  then have "(1 :: real) \<le> of_int \<lceil>v\<rceil>" by linarith
  with assms(4) have "1 \<le> of_int \<lceil>v\<rceil> + x" by linarith
  from monoD[OF assms(1) this] assms(2) show ?thesis by simp
qed

lemma positive_off_diagonal_reinforce:
  assumes "positive_off_diagonal a" and "0 < a ! r ! c" and "0 \<le> x"
    and "mono fl" and "fl 1 = 1"
  shows "positive_off_diagonal (reinforce fl a r c x)"
proof -
  have "0 < reinforce fl a r c x ! i ! j"
    if "i < length a" "j < length (a ! i)" "i \<noteq> j" for i j
  proof (cases "i = r \<and> j = c")
    case True
    from rounded_sum_ge_one[OF assms(4,5,2,3)]
    have "0 < fl (of_int \<lceil>a ! r ! c\<rceil> + x)" by linarith
    moreover from True that
    have "reinforce fl a r c x ! i ! j = fl (of_int \<lceil>a ! r ! c\<rceil> + x)"
      by (simp add: reinforce_cell)
    ultimately show ?thesis by (simp only:)
  next
    case False
    then have "reinforce fl a r c x ! i ! j = a ! i ! j" by (auto simp: reinforce_other)
    with positive_off_diagonalD[OF assms(1) that] show ?thesis by simp
  qed
  then show ?thesis by (simp add: positive_off_diagonal_def list_all_iff)
qed

lemma np_min_nonempty: "vs \<noteq> [] \<Longrightarrow> \<exists>m. np_min vs = Inr m \<and> m \<in> set vs"
  by (simp add: np_min_def min_list_Min)

lemma seed_step_returns:
  assumes "square n a" and "2 \<le> n" and "zero_diagonal a" and "positive_off_diagonal a"
    and "0 \<le> rnd k" and "mono fl" and "fl 1 = 1"
  shows "\<exists>s a' k'. seed_step fl rnd (a, k) = Inr (s, a', k') \<and> positive_off_diagonal a'"
proof -
  from assms(1,2) have len: "0 < length a" "1 < length (a ! 0)"
    by (auto simp: square_def list_all_length)
  from positive_off_diagonalD[OF assms(4) len] have "a ! 0 ! 1 \<noteq> 0" by simp
  with len have "a ! 0 ! 1 \<in> set (nonzero_cells a)" by (auto simp: set_nonzero_cells)
  then have "nonzero_cells a \<noteq> []" by auto
  from np_min_nonempty[OF this] obtain m where m: "np_min (nonzero_cells a) = Inr m"
    "m \<in> set (nonzero_cells a)" by blast
  from m(2) obtain r c where "r < length a" "c < length (a ! r)" "a ! r ! c = m"
    by (auto simp: set_nonzero_cells)
  then have "(r, c) \<in> set (argwhere a m)" by (simp add: set_argwhere)
  then obtain p rest where "argwhere a m = p # rest" by (cases "argwhere a m") auto
  with m(1) obtain s a' k' where run: "seed_step fl rnd (a, k) = Inr (s, a', k')"
    by (cases p) (simp add: seed_step_def)
  from seed_step_Inr[OF run] obtain r' c' where rc: "r' < length a" "c' < length (a ! r')"
    "a ! r' ! c' \<noteq> 0" "a' = reinforce fl a r' c' (rnd k)" by blast
  from zero_diagonal_picked[OF assms(3) rc(1,2,3)] have "r' \<noteq> c'" .
  from positive_off_diagonalD[OF assms(4) rc(1,2) this] have "0 < a ! r' ! c'" .
  from positive_off_diagonal_reinforce[OF assms(4) this assms(5,6,7)] rc(4) run
  show ?thesis by blast
qed

lemma loop_body_returns:
  assumes "square n a" and "2 \<le> n" and "zero_diagonal a" and "positive_off_diagonal a"
    and "0 \<le> rnd k" and "length s = i" and "0 < i" and "\<forall>x\<in>set s. x < n"
    and "mono fl" and "fl 1 = 1"
  shows "\<exists>s' a' k'. loop_body fl rnd i (s, a, k) = Inr (s', a', k') \<and> positive_off_diagonal a'"
proof -
  let ?p = "s ! (i - 1)"
  from assms(6,7) have i: "i - 1 < length s" by simp
  with assms(8) have p: "?p < n" by simp
  from assms(1) p have len: "?p < length a" "length (a ! ?p) = n"
    by (auto simp: square_def list_all_length)
  obtain q where q: "q < n" "q \<noteq> ?p"
  proof (cases "?p = 0")
    case True
    with assms(2) that[of 1] show ?thesis by simp
  next
    case False
    with assms(2) that[of 0] show ?thesis by simp
  qed
  from positive_off_diagonalD[OF assms(4) len(1), of q] q len(2) have "a ! ?p ! q \<noteq> 0"
    by auto
  with q(1) len(2) have "a ! ?p ! q \<in> set (nonzero_row (a ! ?p))"
    by (auto simp: set_nonzero_row)
  then have "nonzero_row (a ! ?p) \<noteq> []" by auto
  from np_min_nonempty[OF this] obtain m where m: "np_min (nonzero_row (a ! ?p)) = Inr m"
    "m \<in> set (nonzero_row (a ! ?p))" by blast
  from m(2) obtain c where "c < length (a ! ?p)" "a ! ?p ! c = m"
    by (auto simp: set_nonzero_row)
  then have "c \<in> set (argwhere_row (a ! ?p) m)" by (simp add: set_argwhere_row)
  then obtain c0 rest where "argwhere_row (a ! ?p) m = c0 # rest"
    by (cases "argwhere_row (a ! ?p) m") auto
  with m(1) i len(1) obtain s' a' k' where run: "loop_body fl rnd i (s, a, k) = Inr (s', a', k')"
    by (simp add: loop_body_def)
  from loop_body_Inr[OF run] obtain c' where c': "c' < length (a ! ?p)"
    "a ! ?p ! c' \<noteq> 0" "a' = reinforce fl a ?p c' (rnd k)" by blast
  from zero_diagonal_picked[OF assms(3) len(1) c'(1,2)] have "?p \<noteq> c'" .
  from positive_off_diagonalD[OF assms(4) len(1) c'(1) this] have "0 < a ! ?p ! c'" .
  from positive_off_diagonal_reinforce[OF assms(4) this assms(5,9,10)] c'(3) run
  show ?thesis by blast
qed

lemma extension_loop_returns:
  assumes "2 \<le> n" and "\<forall>j. 0 \<le> rnd j" and "mono fl" and "fl 1 = 1"
  shows "square n a \<Longrightarrow> zero_diagonal a \<Longrightarrow> positive_off_diagonal a \<Longrightarrow> length s = i \<Longrightarrow>
         0 < i \<Longrightarrow> \<forall>x\<in>set s. x < n \<Longrightarrow>
         \<exists>s' a' k'. extension_loop fl rnd [i..<m] (s, a, k) = Inr (s', a', k')
                 \<and> positive_off_diagonal a'"
proof (induction "m - i" arbitrary: i s a k)
  case 0
  then show ?case by simp
next
  case (Suc d)
  then have lt: "i < m" by simp
  then have upt: "[i..<m] = i # [Suc i..<m]" by (simp add: upt_conv_Cons)
  from assms(2) have rk: "0 \<le> rnd k" by simp
  from loop_body_returns[where rnd = rnd and k = k,
      OF Suc.prems(1) assms(1) Suc.prems(2,3) rk Suc.prems(4,5,6) assms(3,4)]
  obtain s1 a1 k1 where body: "loop_body fl rnd i (s, a, k) = Inr (s1, a1, k1)"
    and pos: "positive_off_diagonal a1" by blast
  from Suc.prems(4,5) have ne: "s \<noteq> []" by auto
  from loop_body_invariants[OF body Suc.prems(4) ne, of n] Suc.prems(1,6)
  have sq: "square n a1" "\<forall>x\<in>set s1. x < n" by blast+
  from loop_body_zero_diagonal[OF Suc.prems(2) body] have zd: "zero_diagonal a1" .
  from loop_body_Inr[OF body] Suc.prems(4) have len: "length s1 = Suc i" by auto
  have d: "d = m - Suc i" using Suc.hyps(2) by simp
  from Suc.hyps(1)[OF d sq(1) zd pos len _ sq(2), of k1]
  obtain s' a' k' where "extension_loop fl rnd [Suc i..<m] (s1, a1, k1) = Inr (s', a', k')"
    "positive_off_diagonal a'" by auto
  with body upt show ?case by simp
qed

lemma generate_sequence_returns:
  assumes "2 \<le> N" and "\<forall>j. 0 \<le> rnd j" and "square (nat N) a" and "zero_diagonal a"
    and "positive_off_diagonal a" and "mono fl" and "fl 1 = 1"
  shows "\<exists>s a' k'. generate_sequence fl rnd N (a, k) = Inr (s, a', k')
           \<and> positive_off_diagonal a'"
proof -
  from assms(1) have n: "2 \<le> nat N" by simp
  from assms(2) have rk: "0 \<le> rnd k" by simp
  from seed_step_returns[where rnd = rnd and k = k, OF assms(3) n assms(4,5) rk assms(6,7)]
  obtain s1 a1 k1 where
    seed: "seed_step fl rnd (a, k) = Inr (s1, a1, k1)" and pos: "positive_off_diagonal a1"
    by blast
  from seed_step_invariants[OF seed, of "nat N"] assms(3,4)
  have inv: "square (nat N) a1" "\<forall>x\<in>set s1. x < nat N" "zero_diagonal a1" by blast+
  from seed_step_Inr[OF seed] have len: "length s1 = 2" by auto
  from extension_loop_returns[OF n assms(2,6,7) inv(1,3) pos len _ inv(2), of "nat N" k1]
  obtain s a' k' where "extension_loop fl rnd [2..<nat N] (s1, a1, k1) = Inr (s, a', k')"
    "positive_off_diagonal a'" by auto
  with seed show ?thesis by (simp add: generate_sequence_def)
qed

lemma sequences_loop_returns:
  assumes "2 \<le> N" and "\<forall>j. 0 \<le> rnd j" and "mono fl" and "fl 1 = 1"
  shows "square (nat N) a \<Longrightarrow> zero_diagonal a \<Longrightarrow> positive_off_diagonal a \<Longrightarrow>
         \<exists>seqs' st'. sequences_loop fl rnd N m (seqs, a, k) = Inr (seqs', st')"
proof (induction m arbitrary: seqs a k)
  case 0
  then show ?case by simp
next
  case (Suc m)
  from generate_sequence_returns[OF assms(1,2) Suc.prems assms(3,4)] obtain s a1 k1 where
    g: "generate_sequence fl rnd N (a, k) = Inr (s, a1, k1)" and pos: "positive_off_diagonal a1"
    by blast
  from generate_sequence_invariants[OF g, of "nat N"] Suc.prems(1,2)
  have "square (nat N) a1" "zero_diagonal a1" by blast+
  from Suc.IH[OF this pos, of "seqs @ [s]" k1] g show ?case by simp
qed

lemma initialize_positive:
  assumes "initialize_markov_chain nprnd N = Inr a" and "\<forall>i. 0 < nprnd i"
  shows "positive_off_diagonal a"
proof -
  from assms(1) have a: "a = fill_diagonal
      (map (\<lambda>i. map (\<lambda>j. nprnd (i * nat N + j)) [0..<nat N]) [0..<nat N]) 0"
    by (auto simp: initialize_markov_chain_def random_rand_def split: if_splits)
  show ?thesis unfolding a using assms(2)
    by (auto simp: positive_off_diagonal_def fill_diagonal_def list_all_iff)
qed

lemma generate_sequences_returns:
  assumes "2 \<le> N" and "initialize_markov_chain nprnd N = Inr a"
    and "\<forall>i. 0 < nprnd i" and "\<forall>j. 0 \<le> rnd j" and "mono fl" and "fl 1 = 1"
  shows "\<exists>seqs st. generate_sequences fl rnd N M (a, k) = Inr (seqs, st)"
proof -
  from initialize_markov_chain_Inr[OF assms(2)]
  have "square (nat N) a" "zero_diagonal a" by simp_all
  from sequences_loop_returns[OF assms(1,4,5,6) this initialize_positive[OF assms(2,3)]]
  show ?thesis by (simp add: generate_sequences_def)
qed

text \<open>The counting loops compute the counts of the transitions.\<close>

lemma square_zeros: "square n (zeros n)"
  by (simp add: square_def zeros_def list_all_iff)

lemma zeros_nth: "a < n \<Longrightarrow> b < n \<Longrightarrow> zeros n ! a ! b = 0"
  by (simp add: zeros_def)

lemma square_nth_length: "square n m \<Longrightarrow> a < n \<Longrightarrow> length (m ! a) = n"
  by (simp add: square_def list_all_length)

lemma count_transition_Inr:
  assumes "square n tpm" and "Suc i < length s" and "s ! i < n" and "s ! Suc i < n"
  shows "\<exists>tpm'. count_transition s i tpm = Inr tpm' \<and> square n tpm'
           \<and> (\<forall>a<n. \<forall>b<n. tpm' ! a ! b =
                 tpm ! a ! b + real (count_list [(s ! i, s ! Suc i)] (a, b)))"
proof -
  let ?r = "s ! i" and ?c = "s ! Suc i"
  let ?t = "tpm[?r := (tpm ! ?r)[?c := tpm ! ?r ! ?c + 1]]"
  from assms have len: "length tpm = n" "length (tpm ! ?r) = n"
    by (simp_all add: square_def list_all_length)
  with assms have run: "count_transition s i tpm = Inr ?t"
    by (simp add: count_transition_def)
  have sq: "square n ?t" using assms(1,3) len
    by (auto simp: square_def list_all_length nth_list_update)
  have cells: "?t ! a ! b = tpm ! a ! b + real (count_list [(?r, ?c)] (a, b))"
    if "a < n" "b < n" for a b
    using that len assms(3,4) by (auto simp: nth_list_update)
  from run sq cells show ?thesis by blast
qed

lemma count_sequence_Inr:
  assumes "square n tpm" and "\<forall>i\<in>set is. Suc i < length s \<and> s ! i < n \<and> s ! Suc i < n"
  shows "\<exists>tpm'. count_sequence s is tpm = Inr tpm' \<and> square n tpm'
           \<and> (\<forall>a<n. \<forall>b<n. tpm' ! a ! b =
                 tpm ! a ! b + real (count_list (map (\<lambda>i. (s ! i, s ! Suc i)) is) (a, b)))"
  using assms
proof (induction "is" arbitrary: tpm)
  case Nil
  then show ?case by simp
next
  case (Cons i "is")
  from Cons.prems(2) have i: "Suc i < length s" "s ! i < n" "s ! Suc i < n" by simp_all
  from count_transition_Inr[OF Cons.prems(1) i] obtain t1 where
    t1: "count_transition s i tpm = Inr t1" "square n t1"
    "\<forall>a<n. \<forall>b<n. t1 ! a ! b = tpm ! a ! b + real (count_list [(s ! i, s ! Suc i)] (a, b))"
    by blast
  from Cons.prems(2) have rest: "\<forall>i\<in>set is. Suc i < length s \<and> s ! i < n \<and> s ! Suc i < n"
    by simp
  from Cons.IH[OF t1(2) rest] obtain t2 where
    t2: "count_sequence s is t1 = Inr t2" "square n t2"
    "\<forall>a<n. \<forall>b<n. t2 ! a ! b =
        t1 ! a ! b + real (count_list (map (\<lambda>i. (s ! i, s ! Suc i)) is) (a, b))"
    by blast
  have run: "count_sequence s (i # is) tpm = Inr t2" using t1(1) t2(1) by simp
  have cells: "t2 ! a ! b =
      tpm ! a ! b + real (count_list (map (\<lambda>i. (s ! i, s ! Suc i)) (i # is)) (a, b))"
    if "a < n" "b < n" for a b
    using t1(3) t2(3) that by simp
  from run t2(2) cells show ?case by blast
qed

lemma transitions_by_index:
  "map (\<lambda>i. (s ! i, s ! Suc i)) [0..<length s - 1] = zip s (tl s)"
  by (rule nth_equalityI) (auto simp: nth_tl)

lemma count_sequences_Inr:
  assumes "square n tpm" and "\<forall>s\<in>set sequences. length s = n \<and> (\<forall>x\<in>set s. x < n)"
  shows "\<exists>tpm'. count_sequences n sequences tpm = Inr tpm' \<and> square n tpm'
           \<and> (\<forall>a<n. \<forall>b<n. tpm' ! a ! b =
                 tpm ! a ! b + real (transition_count sequences a b))"
  using assms
proof (induction sequences arbitrary: tpm)
  case Nil
  then show ?case by (simp add: transition_count_def)
next
  case (Cons s sequences)
  from Cons.prems(2) have s: "length s = n" "\<forall>x\<in>set s. x < n" by simp_all
  have idx: "\<forall>i\<in>set [0..<n - 1]. Suc i < length s \<and> s ! i < n \<and> s ! Suc i < n"
    using s by auto
  from count_sequence_Inr[OF Cons.prems(1) idx] obtain t1 where
    t1: "count_sequence s [0..<n - 1] tpm = Inr t1" "square n t1"
    "\<forall>a<n. \<forall>b<n. t1 ! a ! b =
        tpm ! a ! b + real (count_list (map (\<lambda>i. (s ! i, s ! Suc i)) [0..<n - 1]) (a, b))"
    by blast
  have tr: "map (\<lambda>i. (s ! i, s ! Suc i)) [0..<n - 1] = zip s (tl s)"
    using transitions_by_index[of s] s(1) by simp
  from Cons.prems(2) have rest: "\<forall>s\<in>set sequences. length s = n \<and> (\<forall>x\<in>set s. x < n)"
    by simp
  from Cons.IH[OF t1(2) rest] obtain t2 where
    t2: "count_sequences n sequences t1 = Inr t2" "square n t2"
    "\<forall>a<n. \<forall>b<n. t2 ! a ! b = t1 ! a ! b + real (transition_count sequences a b)"
    by blast
  have run: "count_sequences n (s # sequences) tpm = Inr t2" using t1(1) t2(1) by simp
  have cells: "t2 ! a ! b = tpm ! a ! b + real (transition_count (s # sequences) a b)"
    if "a < n" "b < n" for a b
    using t1(3) t2(3) that unfolding tr by (simp add: transition_count_def)
  from run t2(2) cells show ?case by blast
qed

lemma normalize_rows_counts:
  assumes "square n tpm" and "\<forall>a<n. \<forall>b<n. tpm ! a ! b = real (transition_count sequences a b)"
  shows "normalize_rows tpm = spec_transition_probability_matrix n sequences"
proof -
  from assms(1) have len: "length tpm = n" by (simp add: square_def)
  have row: "tpm ! a = map (\<lambda>b. real (transition_count sequences a b)) [0..<n]" if "a < n" for a
    using that assms(2) square_nth_length[OF assms(1) that] by (intro nth_equalityI) simp_all
  show ?thesis
    unfolding normalize_rows_def spec_transition_probability_matrix_def row_total_def
    by (rule nth_equalityI) (simp_all add: len row comp_def)
qed

lemma sum_list_divide: "sum_list (map (\<lambda>x. f x / c) xs) = sum_list (map f xs) / (c :: real)"
  by (induction xs) (simp_all add: add_divide_distrib)

section \<open>Runs on the concrete inputs\<close>

lemma example_fl_mono: "mono example_fl"
proof (rule monoI)
  fix x y :: real
  assume "x \<le> y"
  then have "x * 2 ^ 52 \<le> y * 2 ^ 52" by simp
  then have "round (x * 2 ^ 52) \<le> round (y * 2 ^ 52)" by (rule round_mono)
  then show "example_fl x \<le> example_fl y"
    by (simp add: example_fl_def divide_right_mono)
qed

lemma example_fl_one: "example_fl 1 = 1"
  by (simp add: example_fl_def)

lemma near_one_seed_step:
  "seed_step example_fl near_one_rnd (half_matrix, 0) = Inr ([0, 1], half_after_seed, 1)"
  by code_simp

lemma example_row_total: "row_total 3 [[0, 1, 0], [0, 2, 0]] 0 \<noteq> 0"
  by code_simp

lemma example_row_total_zero: "row_total 3 [[0, 1, 0], [0, 1, 0]] 2 = 0"
  by code_simp

lemma example_calculate:
  "calculate_transition_probability_matrix [[0, 1, 0], [0, 2, 0]] =
     Inr [[Fin 0, Fin (1 / 2), Fin (1 / 2)], [Fin 1, Fin 0, Fin 0], [Fin 1, Fin 0, Fin 0]]"
  by code_simp

lemma example_initialize:
  "initialize_markov_chain example_nprnd 3 = Inr example_matrix"
  by code_simp

lemma example_generate_sequences:
  "generate_sequences example_fl example_rnd 3 2 (example_matrix, 0) =
     Inr ([[0, 1, 0], [0, 2, 0]], example_after_run, 4)"
  by code_simp

lemma example_generate_sequence:
  "generate_sequence example_fl example_rnd 3 (example_matrix, 0) =
     Inr ([0, 1, 0], example_after_first, 2)"
  by code_simp

lemma example_seed_step:
  "seed_step example_fl example_rnd (example_matrix, 0) = Inr ([0, 1], example_after_seed, 1)"
  by code_simp

lemma example_loop_body:
  "loop_body example_fl example_rnd 2 ([0, 1], example_after_seed, 1) =
     Inr ([0, 1, 0], example_after_first, 2)"
  by code_simp

lemma example_zero_diagonal: "zero_diagonal example_matrix"
  by code_simp

lemma example_square: "square 3 example_matrix"
  by code_simp

section \<open>The claims\<close>

text \<open>
  C1. For every \<open>N \<ge> 2\<close> and every matrix produced by the initializer, every
  sequence of the set returned by \<open>generate_sequences\<close> (for any \<open>M\<close>, the set
  having \<open>M\<close> sequences) has length exactly \<open>N\<close> and no two consecutive equal
  elements; the same holds for every sequence the builder returns on a matrix whose
  diagonal is zero, which is what every matrix of a run is. When no draw of the
  initializer is exactly zero, no draw is negative and the rounding of the addition is
  monotone and keeps 1, the run does return a sequence set.
\<close>

theorem sequences_length_and_no_immediate_repeat:
  assumes "2 \<le> N"
    and "initialize_markov_chain nprnd N = Inr a"
  shows "(\<forall>M k seqs st. generate_sequences fl rnd N M (a, k) = Inr (seqs, st) \<longrightarrow>
            length seqs = nat M \<and> (\<forall>s\<in>set seqs. length s = nat N \<and> distinct_adj s))
       \<and> (\<forall>b k s st. zero_diagonal b \<and> generate_sequence fl rnd N (b, k) = Inr (s, st) \<longrightarrow>
            length s = nat N \<and> distinct_adj s)
       \<and> ((\<forall>i. 0 < nprnd i) \<and> (\<forall>j. 0 \<le> rnd j) \<and> mono fl \<and> fl 1 = 1 \<longrightarrow>
            (\<forall>M k. \<exists>seqs st. generate_sequences fl rnd N M (a, k) = Inr (seqs, st)))"
proof (intro conjI allI impI)
  fix M k seqs st
  assume g: "generate_sequences fl rnd N M (a, k) = Inr (seqs, st)"
  obtain a' k' where st: "st = (a', k')" by (cases st) auto
  from initialize_markov_chain_Inr[OF assms(2)] have zd: "zero_diagonal a" by simp
  from assms(1) have mx: "max 2 (nat N) = nat N" by simp
  note gi = generate_sequences_Inr[OF g[unfolded st], of "nat N"]
  from gi show "length seqs = nat M" by simp
  from gi zd mx show "\<forall>s\<in>set seqs. length s = nat N \<and> distinct_adj s" by simp
next
  fix b k s st
  assume h: "zero_diagonal b \<and> generate_sequence fl rnd N (b, k) = Inr (s, st)"
  obtain a' k' where st: "st = (a', k')" by (cases st) auto
  from h st have g: "generate_sequence fl rnd N (b, k) = Inr (s, a', k')" by simp
  from assms(1) have mx: "max 2 (nat N) = nat N" by simp
  from generate_sequence_Inr[OF g] mx show "length s = nat N" by simp
  from generate_sequence_invariants[OF g, of 0] h show "distinct_adj s" by simp
next
  fix M k
  assume "(\<forall>i. 0 < nprnd i) \<and> (\<forall>j. 0 \<le> rnd j) \<and> mono fl \<and> fl 1 = 1"
  then have "\<forall>i. 0 < nprnd i" "\<forall>j. 0 \<le> rnd j" "mono fl" "fl 1 = 1" by simp_all
  from generate_sequences_returns[OF assms this]
  show "\<exists>seqs st. generate_sequences fl rnd N M (a, k) = Inr (seqs, st)" .
qed

theorem sequences_length_and_no_immediate_repeat_witness:
  "initialize_markov_chain example_nprnd 3 = Inr example_matrix
   \<and> generate_sequences example_fl example_rnd 3 2 (example_matrix, 0) =
       Inr ([[0, 1, 0], [0, 2, 0]], example_after_run, 4)
   \<and> length [[0, 1, 0], [0, 2, 0 :: nat]] = nat 2
   \<and> length [0, 1, 0 :: nat] = nat 3 \<and> distinct_adj [0, 1, 0 :: nat]
   \<and> length [0, 2, 0 :: nat] = nat 3 \<and> distinct_adj [0, 2, 0 :: nat]
   \<and> (\<exists>seqs st. generate_sequences example_fl example_rnd 3 5 (example_matrix, 0) = Inr (seqs, st))"
proof -
  have N: "(2 :: int) \<le> 3" by simp
  note th = sequences_length_and_no_immediate_repeat[OF N example_initialize,
      where fl = example_fl and rnd = example_rnd]
  have "(\<forall>i. 0 < example_nprnd i) \<and> (\<forall>j. 0 \<le> example_rnd j)
        \<and> mono example_fl \<and> example_fl 1 = 1"
    by (simp add: example_nprnd_def example_rnd_def example_fl_mono example_fl_one)
  with th have ret: "\<exists>seqs st. generate_sequences example_fl example_rnd 3 5 (example_matrix, 0) =
      Inr (seqs, st)" by blast
  from th example_generate_sequences
  have run: "length [[0, 1, 0], [0, 2, 0 :: nat]] = nat 2
      \<and> (\<forall>s\<in>set [[0, 1, 0], [0, 2, 0 :: nat]]. length s = nat 3 \<and> distinct_adj s)"
    by blast
  have "[0, 1, 0 :: nat] \<in> set [[0, 1, 0], [0, 2, 0]]"
    and "[0, 2, 0 :: nat] \<in> set [[0, 1, 0], [0, 2, 0]]" by simp_all
  with run ret example_initialize example_generate_sequences show ?thesis by blast
qed

text \<open>
  C2. The diagonal of the maintained matrix is exactly zero after initialization, and
  each single cell update of sequence generation keeps it zero: the seed update, the
  update of every loop iteration, hence every intermediate matrix of a call of the
  builder (the matrix after the first \<open>j\<close> updates, for every \<open>j\<close>) and the matrix
  at the end of a whole run.
\<close>

theorem diagonal_stays_zero:
  "(\<forall>a. initialize_markov_chain nprnd N = Inr a \<longrightarrow> zero_diagonal a)
   \<and> (\<forall>a k s a' k'. zero_diagonal a \<and> seed_step fl rnd (a, k) = Inr (s, a', k') \<longrightarrow>
          zero_diagonal a')
   \<and> (\<forall>i s a k s' a' k'. zero_diagonal a \<and> loop_body fl rnd i (s, a, k) = Inr (s', a', k') \<longrightarrow>
          zero_diagonal a')
   \<and> (\<forall>a k s a' k' j. zero_diagonal a \<and> generate_sequence fl rnd N (a, k) = Inr (s, a', k') \<longrightarrow>
          zero_diagonal (apply_reinforcements fl rnd k (take j (zip s (tl s))) a)
          \<and> a' = apply_reinforcements fl rnd k (zip s (tl s)) a \<and> zero_diagonal a')
   \<and> (\<forall>a k seqs a' k'. zero_diagonal a \<and> generate_sequences fl rnd N M (a, k) = Inr (seqs, a', k') \<longrightarrow>
          zero_diagonal a')"
proof (intro conjI allI impI)
  fix a assume "initialize_markov_chain nprnd N = Inr a"
  then show "zero_diagonal a" by (simp add: initialize_markov_chain_Inr)
next
  fix a k s a' k'
  assume "zero_diagonal a \<and> seed_step fl rnd (a, k) = Inr (s, a', k')"
  then show "zero_diagonal a'" using seed_step_zero_diagonal by blast
next
  fix i s a k s' a' k'
  assume "zero_diagonal a \<and> loop_body fl rnd i (s, a, k) = Inr (s', a', k')"
  then show "zero_diagonal a'" using loop_body_zero_diagonal by blast
next
  fix a k s a' k' j
  assume h: "zero_diagonal a \<and> generate_sequence fl rnd N (a, k) = Inr (s, a', k')"
  then have g: "generate_sequence fl rnd N (a, k) = Inr (s, a', k')" and zd: "zero_diagonal a"
    by simp_all
  from generate_sequence_invariants[OF g, of 0] zd have da: "distinct_adj s" by simp
  have "\<forall>(r, c)\<in>set (take j (zip s (tl s))). r \<noteq> c"
    using distinct_adj_transitions[OF da] by (auto dest: in_set_takeD)
  from apply_reinforcements_zero_diagonal[OF zd this]
  show "zero_diagonal (apply_reinforcements fl rnd k (take j (zip s (tl s))) a)" .
  from generate_sequence_Inr[OF g]
  show "a' = apply_reinforcements fl rnd k (zip s (tl s)) a" by simp
  from generate_sequence_invariants[OF g, of 0] zd show "zero_diagonal a'" by simp
next
  fix a k seqs a' k'
  assume "zero_diagonal a \<and> generate_sequences fl rnd N M (a, k) = Inr (seqs, a', k')"
  then show "zero_diagonal a'" using generate_sequences_Inr[of fl rnd N M a k seqs a' k' 0] by simp
qed

theorem diagonal_stays_zero_witness:
  "zero_diagonal example_matrix \<and> zero_diagonal example_after_seed
   \<and> zero_diagonal example_after_first
   \<and> zero_diagonal
        (apply_reinforcements example_fl example_rnd 0 (take 1 (zip [0, 1, 0] (tl [0, 1, 0])))
           example_matrix)
   \<and> zero_diagonal example_after_run"
proof -
  note th = diagonal_stays_zero[where nprnd = example_nprnd and N = 3 and fl = example_fl
      and rnd = example_rnd and M = 2]
  note init = th[THEN conjunct1, rule_format]
  note seed = th[THEN conjunct2, THEN conjunct1, rule_format]
  note body = th[THEN conjunct2, THEN conjunct2, THEN conjunct1, rule_format]
  note call = th[THEN conjunct2, THEN conjunct2, THEN conjunct2, THEN conjunct1, rule_format]
  note run = th[THEN conjunct2, THEN conjunct2, THEN conjunct2, THEN conjunct2, rule_format]
  have z0: "zero_diagonal example_matrix"
    by (rule init[OF example_initialize])
  have z1: "zero_diagonal example_after_seed"
    by (rule seed[OF conjI[OF z0 example_seed_step]])
  have z2: "zero_diagonal example_after_first"
    by (rule body[OF conjI[OF z1 example_loop_body]])
  have z3: "zero_diagonal
        (apply_reinforcements example_fl example_rnd 0 (take 1 (zip [0, 1, 0] (tl [0, 1, 0])))
           example_matrix)"
    by (rule call[OF conjI[OF z0 example_generate_sequence], THEN conjunct1])
  have z4: "zero_diagonal example_after_run"
    by (rule run[OF conjI[OF z0 example_generate_sequences]])
  from z0 z1 z2 z3 z4 show ?thesis by blast
qed

text \<open>
  C4. Every reinforcement, in the seed step and in the loop, replaces the value \<open>v\<close> of
  the selected cell by the float sum of \<open>ceil v\<close> and the next draw of the stream, that
  is by the rounded value of \<open>ceil v + draw\<close>, and advances the stream by one, so that
  no draw is used twice. When \<open>v\<close> lies in \<open>(0, 1)\<close> and the draw in \<open>[0, 1)\<close>, the
  new value is at least 1, hence above every cell below 1, for every rounding that is
  monotone and keeps 1.
\<close>

theorem reinforcement_is_ceiling_plus_draw:
  "(\<forall>a k s a' k'. seed_step fl rnd (a, k) = Inr (s, a', k') \<longrightarrow>
      (\<exists>r c. s = [r, c] \<and> k' = Suc k
         \<and> a' = a[r := (a ! r)[c := fl (of_int \<lceil>a ! r ! c\<rceil> + rnd k)]]
         \<and> a' ! r ! c = fl (of_int \<lceil>a ! r ! c\<rceil> + rnd k)
         \<and> (mono fl \<and> fl 1 = 1 \<and> 0 < a ! r ! c \<and> a ! r ! c < 1
              \<and> 0 \<le> rnd k \<and> rnd k < 1 \<longrightarrow> 1 \<le> a' ! r ! c)))
   \<and> (\<forall>i s a k s' a' k'. loop_body fl rnd i (s, a, k) = Inr (s', a', k') \<longrightarrow>
      (\<exists>c. s' = s @ [c] \<and> k' = Suc k
         \<and> a' = a[s ! (i - 1) :=
                   (a ! (s ! (i - 1)))[c := fl (of_int \<lceil>a ! (s ! (i - 1)) ! c\<rceil> + rnd k)]]
         \<and> a' ! (s ! (i - 1)) ! c = fl (of_int \<lceil>a ! (s ! (i - 1)) ! c\<rceil> + rnd k)
         \<and> (mono fl \<and> fl 1 = 1 \<and> 0 < a ! (s ! (i - 1)) ! c \<and> a ! (s ! (i - 1)) ! c < 1
              \<and> 0 \<le> rnd k \<and> rnd k < 1 \<longrightarrow> 1 \<le> a' ! (s ! (i - 1)) ! c)))"
proof -
  have seed: "\<exists>r c. s = [r, c] \<and> k' = Suc k
         \<and> a' = a[r := (a ! r)[c := fl (of_int \<lceil>a ! r ! c\<rceil> + rnd k)]]
         \<and> a' ! r ! c = fl (of_int \<lceil>a ! r ! c\<rceil> + rnd k)
         \<and> (mono fl \<and> fl 1 = 1 \<and> 0 < a ! r ! c \<and> a ! r ! c < 1
              \<and> 0 \<le> rnd k \<and> rnd k < 1 \<longrightarrow> 1 \<le> a' ! r ! c)"
    if "seed_step fl rnd (a, k) = Inr (s, a', k')" for a k s a' k'
  proof -
    from seed_step_Inr[OF that] obtain r c where rc: "s = [r, c]" "r < length a"
      "c < length (a ! r)" "a' = reinforce fl a r c (rnd k)" "k' = Suc k" by blast
    have v: "a' ! r ! c = fl (of_int \<lceil>a ! r ! c\<rceil> + rnd k)"
      unfolding rc(4) by (rule reinforce_cell[OF rc(2,3)])
    have u: "a' = a[r := (a ! r)[c := fl (of_int \<lceil>a ! r ! c\<rceil> + rnd k)]]"
      unfolding rc(4) reinforce_def ..
    have "1 \<le> a' ! r ! c" if "mono fl" "fl 1 = 1" "0 < a ! r ! c" "0 \<le> rnd k"
      unfolding v by (rule rounded_sum_ge_one[OF that])
    with rc(1,5) u v show ?thesis by blast
  qed
  have loop: "\<exists>c. s' = s @ [c] \<and> k' = Suc k
         \<and> a' = a[s ! (i - 1) :=
                   (a ! (s ! (i - 1)))[c := fl (of_int \<lceil>a ! (s ! (i - 1)) ! c\<rceil> + rnd k)]]
         \<and> a' ! (s ! (i - 1)) ! c = fl (of_int \<lceil>a ! (s ! (i - 1)) ! c\<rceil> + rnd k)
         \<and> (mono fl \<and> fl 1 = 1 \<and> 0 < a ! (s ! (i - 1)) ! c \<and> a ! (s ! (i - 1)) ! c < 1
              \<and> 0 \<le> rnd k \<and> rnd k < 1 \<longrightarrow> 1 \<le> a' ! (s ! (i - 1)) ! c)"
    if "loop_body fl rnd i (s, a, k) = Inr (s', a', k')" for i s a k s' a' k'
  proof -
    let ?p = "s ! (i - 1)"
    from loop_body_Inr[OF that] obtain c where c: "?p < length a" "c < length (a ! ?p)"
      "s' = s @ [c]" "a' = reinforce fl a ?p c (rnd k)" "k' = Suc k" by blast
    have v: "a' ! ?p ! c = fl (of_int \<lceil>a ! ?p ! c\<rceil> + rnd k)"
      unfolding c(4) by (rule reinforce_cell[OF c(1,2)])
    have u: "a' = a[?p := (a ! ?p)[c := fl (of_int \<lceil>a ! ?p ! c\<rceil> + rnd k)]]"
      unfolding c(4) reinforce_def ..
    have "1 \<le> a' ! ?p ! c" if "mono fl" "fl 1 = 1" "0 < a ! ?p ! c" "0 \<le> rnd k"
      unfolding v by (rule rounded_sum_ge_one[OF that])
    with c(3,5) u v show ?thesis by blast
  qed
  from seed loop show ?thesis by blast
qed

theorem reinforcement_is_ceiling_plus_draw_witness:
  "seed_step example_fl example_rnd (example_matrix, 0) = Inr ([0, 1], example_after_seed, 1)
   \<and> example_after_seed ! 0 ! 1 =
       example_fl (of_int \<lceil>example_matrix ! 0 ! 1\<rceil> + example_rnd 0)
   \<and> 1 \<le> example_after_seed ! 0 ! 1
   \<and> loop_body example_fl example_rnd 2 ([0, 1], example_after_seed, 1) =
       Inr ([0, 1, 0], example_after_first, 2)
   \<and> example_after_first ! 1 ! 0 =
       example_fl (of_int \<lceil>example_after_seed ! 1 ! 0\<rceil> + example_rnd 1)
   \<and> 1 \<le> example_after_first ! 1 ! 0
   \<and> seed_step example_fl near_one_rnd (half_matrix, 0) = Inr ([0, 1], half_after_seed, 1)
   \<and> 1 \<le> half_after_seed ! 0 ! 1
   \<and> half_after_seed ! 0 ! 1 = 2"
proof -
  note th = reinforcement_is_ceiling_plus_draw[where fl = example_fl and rnd = example_rnd]
  note th' = reinforcement_is_ceiling_plus_draw[where fl = example_fl and rnd = near_one_rnd]
  note fl = example_fl_mono example_fl_one
  from th example_seed_step obtain r c where rc: "[0, 1] = [r, c]"
    and v: "example_after_seed ! r ! c =
              example_fl (of_int \<lceil>example_matrix ! r ! c\<rceil> + example_rnd 0)"
    and b: "mono example_fl \<and> example_fl 1 = 1
              \<and> 0 < example_matrix ! r ! c \<and> example_matrix ! r ! c < 1
              \<and> 0 \<le> example_rnd 0 \<and> example_rnd 0 < 1 \<longrightarrow>
            1 \<le> example_after_seed ! r ! c"
    by blast
  from rc have r: "r = 0" and c: "c = 1" by simp_all
  have pre: "0 < example_matrix ! 0 ! 1 \<and> example_matrix ! 0 ! 1 < 1
              \<and> 0 \<le> example_rnd 0 \<and> example_rnd 0 < 1"
    by (simp add: example_matrix_def example_rnd_def)
  from b pre fl have b1: "1 \<le> example_after_seed ! 0 ! 1" unfolding r c by blast
  from th example_loop_body obtain c' where c': "[0, 1, 0] = [0, 1] @ [c']"
    and v': "example_after_first ! ([0, 1] ! (2 - 1)) ! c' =
               example_fl (of_int \<lceil>example_after_seed ! ([0, 1] ! (2 - 1)) ! c'\<rceil>
                 + example_rnd 1)"
    and b': "mono example_fl \<and> example_fl 1 = 1
              \<and> 0 < example_after_seed ! ([0, 1] ! (2 - 1)) ! c'
              \<and> example_after_seed ! ([0, 1] ! (2 - 1)) ! c' < 1
              \<and> 0 \<le> example_rnd 1 \<and> example_rnd 1 < 1 \<longrightarrow>
            1 \<le> example_after_first ! ([0, 1] ! (2 - 1)) ! c'"
    by blast
  from c' have c0: "c' = 0" by simp
  have p: "[0, 1 :: nat] ! (2 - 1) = 1" by simp
  have pre': "0 < example_after_seed ! 1 ! 0 \<and> example_after_seed ! 1 ! 0 < 1
              \<and> 0 \<le> example_rnd 1 \<and> example_rnd 1 < 1"
    by (simp add: example_after_seed_def example_rnd_def)
  from b' pre' fl have b2: "1 \<le> example_after_first ! 1 ! 0" unfolding c0 p by blast
  from v have v1: "example_after_seed ! 0 ! 1 =
      example_fl (of_int \<lceil>example_matrix ! 0 ! 1\<rceil> + example_rnd 0)"
    unfolding r c .
  from v' have v2: "example_after_first ! 1 ! 0 =
      example_fl (of_int \<lceil>example_after_seed ! 1 ! 0\<rceil> + example_rnd 1)"
    unfolding c0 p .
  from th' near_one_seed_step obtain r'' c'' where rc'': "[0, 1] = [r'', c'']"
    and b'': "mono example_fl \<and> example_fl 1 = 1
              \<and> 0 < half_matrix ! r'' ! c'' \<and> half_matrix ! r'' ! c'' < 1
              \<and> 0 \<le> near_one_rnd 0 \<and> near_one_rnd 0 < 1 \<longrightarrow>
            1 \<le> half_after_seed ! r'' ! c''"
    by blast
  from rc'' have r'': "r'' = 0" and c'': "c'' = 1" by simp_all
  have pre'': "0 < half_matrix ! 0 ! 1 \<and> half_matrix ! 0 ! 1 < 1
              \<and> 0 \<le> near_one_rnd 0 \<and> near_one_rnd 0 < 1"
    by (simp add: half_matrix_def near_one_rnd_def)
  from b'' pre'' fl have b3: "1 \<le> half_after_seed ! 0 ! 1" unfolding r'' c'' by blast
  have two: "half_after_seed ! 0 ! 1 = 2" by (simp add: half_after_seed_def)
  from example_seed_step example_loop_body near_one_seed_step v1 b1 v2 b2 b3 two
  show ?thesis by blast
qed

text \<open>
  C6, as stated, fails: with \<open>N = 3\<close> the builder returns \<open>[0, 1, 0]\<close> on the matrix
  the initializer produces from the example stream, and the symbol 2 does not appear.
\<close>

theorem not_every_symbol_appears:
  "initialize_markov_chain example_nprnd 3 = Inr example_matrix
   \<and> generate_sequence example_fl example_rnd 3 (example_matrix, 0) = Inr ([0, 1, 0], example_after_first, 2)
   \<and> (2 :: nat) < 3 \<and> 2 \<notin> set [0, 1, 0 :: nat]"
  by (simp add: example_initialize example_generate_sequence)

text \<open>
  C6, amended. For every \<open>N \<ge> 2\<close>, every generated sequence has length \<open>N\<close>, the
  size of the alphabet, and each of its elements is a symbol of \<open>[0, N)\<close>.
\<close>

theorem sequence_symbols_in_alphabet:
  assumes "2 \<le> N" and "initialize_markov_chain nprnd N = Inr a"
    and "generate_sequences fl rnd N M (a, k) = Inr (seqs, st)" and "s \<in> set seqs"
  shows "length s = nat N \<and> set s \<subseteq> {..<nat N}"
proof -
  obtain a' k' where st: "st = (a', k')" by (cases st) auto
  from initialize_markov_chain_Inr[OF assms(2)] have sq: "square (nat N) a" by simp
  from assms(1) have mx: "max 2 (nat N) = nat N" by simp
  note gi = generate_sequences_Inr[OF assms(3)[unfolded st], of "nat N"]
  from gi assms(4) mx have "length s = nat N" by simp
  moreover from gi sq assms(4) have "\<forall>x\<in>set s. x < nat N" by blast
  ultimately show ?thesis by auto
qed

theorem sequence_symbols_in_alphabet_witness:
  "generate_sequences example_fl example_rnd 3 2 (example_matrix, 0) =
     Inr ([[0, 1, 0], [0, 2, 0]], example_after_run, 4)
   \<and> length [0, 2, 0 :: nat] = nat 3 \<and> set [0, 2, 0 :: nat] \<subseteq> {..<nat 3}"
proof -
  have N: "(2 :: int) \<le> 3" by simp
  have m: "[0, 2, 0 :: nat] \<in> set [[0, 1, 0], [0, 2, 0]]" by simp
  from sequence_symbols_in_alphabet[OF N example_initialize example_generate_sequences m]
    example_generate_sequences
  show ?thesis by blast
qed

text \<open>
  C10. A call of the builder on an \<open>N \<times> N\<close> matrix, \<open>N \<ge> 2\<close>, that returns \<open>s\<close>
  leaves the shape of the matrix unchanged and performs exactly one reinforcement per
  transition \<open>(s[i], s[i+1])\<close> of \<open>s\<close>, \<open>N - 1\<close> in all, in order; every cell that is
  not such a transition keeps its value.
\<close>

theorem generate_sequence_frame:
  assumes "2 \<le> N" and "square (nat N) a"
    and "generate_sequence fl rnd N (a, k) = Inr (s, a', k')"
  shows "square (nat N) a' \<and> length a' = length a \<and> map length a' = map length a
       \<and> length (zip s (tl s)) = nat N - 1 \<and> k' = k + (nat N - 1)
       \<and> a' = apply_reinforcements fl rnd k (zip s (tl s)) a
       \<and> (\<forall>r c. (r, c) \<notin> set (zip s (tl s)) \<longrightarrow> a' ! r ! c = a ! r ! c)"
proof -
  from assms(1) have mx: "max 2 (nat N) = nat N" by simp
  from generate_sequence_Inr[OF assms(3)] mx have len: "length s = nat N"
    and k': "k' = k + (nat N - 1)"
    and a': "a' = apply_reinforcements fl rnd k (zip s (tl s)) a" by simp_all
  from generate_sequence_invariants[OF assms(3), of "nat N"] assms(2)
  have sq: "square (nat N) a'" by simp
  have shape: "length a' = length a \<and> map length a' = map length a"
    unfolding a' by (rule apply_reinforcements_shape)
  have frame: "\<forall>r c. (r, c) \<notin> set (zip s (tl s)) \<longrightarrow> a' ! r ! c = a ! r ! c"
    unfolding a' by (simp add: apply_reinforcements_other)
  have "length (zip s (tl s)) = nat N - 1" using len by simp
  with sq shape k' a' frame show ?thesis by blast
qed

theorem generate_sequence_frame_witness:
  "generate_sequence example_fl example_rnd 3 (example_matrix, 0) = Inr ([0, 1, 0], example_after_first, 2)
   \<and> square (nat 3) example_after_first
   \<and> length example_after_first = length example_matrix
   \<and> length (zip [0, 1, 0 :: nat] (tl [0, 1, 0 :: nat])) = nat 3 - 1
   \<and> (2 :: nat) = 0 + (nat 3 - 1)
   \<and> example_after_first =
       apply_reinforcements example_fl example_rnd 0 (zip [0, 1, 0] (tl [0, 1, 0])) example_matrix
   \<and> example_after_first ! 2 ! 1 = example_matrix ! 2 ! 1"
proof -
  have N: "(2 :: int) \<le> 3" by simp
  have sq: "square (nat 3) example_matrix" using example_square by simp
  note th = generate_sequence_frame[OF N sq example_generate_sequence]
  have "(2 :: nat, 1 :: nat) \<notin> set (zip [0, 1, 0] (tl [0, 1, 0]))" by simp
  with th have "example_after_first ! 2 ! 1 = example_matrix ! 2 ! 1" by blast
  with th example_generate_sequence show ?thesis by blast
qed

text \<open>
  C3, at a failing input. The candidates of the search are the nonzero cells, not the
  off-diagonal cells: when the initializer draws exactly \<open>0\<close> for cell \<open>(0, 1)\<close>,
  that off-diagonal cell holds the minimum over the off-diagonal cells and comes first
  in row-major order, yet the seed search selects cell \<open>(0, 2)\<close>; in the second
  sequence of the run the search over row 0 selects column 2 in the same way.
\<close>

theorem seed_search_skips_zero_cell:
  "initialize_markov_chain zero_draw_nprnd 3 = Inr zero_draw_matrix
   \<and> zero_draw_matrix ! 0 ! 1 = 0
   \<and> zero_draw_matrix ! 0 ! 1 < zero_draw_matrix ! 0 ! 2
   \<and> seed_step example_fl example_rnd (zero_draw_matrix, 0) = Inr ([0, 2], zero_draw_after_seed, 1)
   \<and> zero_draw_second_seed ! 0 ! 1 < zero_draw_second_seed ! 0 ! 2
   \<and> loop_body example_fl example_rnd 2 ([1, 0], zero_draw_second_seed, 3) =
       Inr ([1, 0, 2], zero_draw_after_run, 4)
   \<and> generate_sequences example_fl example_rnd 3 2 (zero_draw_matrix, 0) =
       Inr ([[0, 2, 0], [1, 0, 2]], zero_draw_after_run, 4)"
  by code_simp

text \<open>
  C7, as stated, fails: for \<open>N = 1\<close> and \<open>N = 0\<close> the initializer reports no error
  and returns a matrix.
\<close>

theorem small_dimension_initializes:
  "initialize_markov_chain example_nprnd 1 = Inr [[0]]
   \<and> initialize_markov_chain example_nprnd 0 = Inr []"
  by code_simp

text \<open>
  C7, amended. For \<open>N < 2\<close>: a negative \<open>N\<close> makes the initializer fail with
  ValueError; for \<open>N\<close> equal to 0 or 1 the initializer returns an \<open>N \<times> N\<close> matrix
  with no nonzero cell and the builder fails on it with ValueError before producing any element, so that a
  run with \<open>M \<ge> 1\<close> ends with ValueError and writes nothing.
\<close>

theorem small_dimension_fails_with_ValueError:
  assumes "N < 2"
  shows "(N < 0 \<longrightarrow> initialize_markov_chain nprnd N = Inl ValueError)
       \<and> (0 \<le> N \<longrightarrow>
            (\<exists>a. initialize_markov_chain nprnd N = Inr a \<and> square (nat N) a
                 \<and> nonzero_cells a = []
                 \<and> generate_sequence fl rnd N (a, k) = Inl ValueError
                 \<and> (1 \<le> M \<longrightarrow> generate_sequences fl rnd N M (a, k) = Inl ValueError)))
       \<and> (1 \<le> M \<longrightarrow>
            generate_balanced_sequences fl nprnd rnd N M subfolder fs = (Some ValueError, fs))"
proof (intro conjI impI)
  assume "N < 0"
  then show "initialize_markov_chain nprnd N = Inl ValueError"
    by (simp add: initialize_markov_chain_def random_rand_def)
next
  assume N: "0 \<le> N"
  from initialize_small[OF N assms] obtain a where a: "initialize_markov_chain nprnd N = Inr a"
    "square (nat N) a" "nonzero_cells a = []" by blast
  have g: "generate_sequence fl rnd N (a, k) = Inl ValueError"
    by (rule generate_sequence_no_nonzero[OF a(3)])
  have "generate_sequences fl rnd N M (a, k) = Inl ValueError" if "1 \<le> M"
    by (rule generate_sequences_first_fails[OF g that])
  with a g show "\<exists>a. initialize_markov_chain nprnd N = Inr a \<and> square (nat N) a
                 \<and> nonzero_cells a = []
                 \<and> generate_sequence fl rnd N (a, k) = Inl ValueError
                 \<and> (1 \<le> M \<longrightarrow> generate_sequences fl rnd N M (a, k) = Inl ValueError)"
    by blast
next
  assume M: "1 \<le> M"
  show "generate_balanced_sequences fl nprnd rnd N M subfolder fs = (Some ValueError, fs)"
  proof (cases "N < 0")
    case True
    then show ?thesis
      by (simp add: generate_balanced_sequences_def initialize_markov_chain_def random_rand_def)
  next
    case False
    then have N: "0 \<le> N" by simp
    from initialize_small[OF N assms] obtain a where a: "initialize_markov_chain nprnd N = Inr a"
      "nonzero_cells a = []" by blast
    have "generate_sequences fl rnd N M (a, 0) = Inl ValueError"
      by (rule generate_sequences_first_fails[OF generate_sequence_no_nonzero[OF a(2)] M])
    with a(1) show ?thesis by (simp add: generate_balanced_sequences_def)
  qed
qed

theorem small_dimension_fails_with_ValueError_witness:
  "initialize_markov_chain example_nprnd (- 1) = Inl ValueError
   \<and> generate_sequence example_fl example_rnd 1 ([[0]], 0) = Inl ValueError
   \<and> generate_sequences example_fl example_rnd 1 1 ([[0]], 0) = Inl ValueError
   \<and> generate_balanced_sequences example_fl example_nprnd example_rnd 1 1 ''example'' [] =
        (Some ValueError, [])"
proof -
  have neg: "(- 1 :: int) < 2" "(- 1 :: int) < 0" by simp_all
  have one: "(1 :: int) < 2" "(0 :: int) \<le> 1" "(1 :: int) \<le> 1" by simp_all
  have init: "initialize_markov_chain example_nprnd 1 = Inr [[0]]" by code_simp
  note thn = small_dimension_fails_with_ValueError[OF neg(1), of example_nprnd]
  note th1 = small_dimension_fails_with_ValueError[OF one(1), of example_nprnd example_fl
      example_rnd 0 1
      "''example''" "[]"]
  from thn neg(2) have 1: "initialize_markov_chain example_nprnd (- 1) = Inl ValueError"
    by blast
  from th1 one(2) obtain a where a: "initialize_markov_chain example_nprnd 1 = Inr a"
    "generate_sequence example_fl example_rnd 1 (a, 0) = Inl ValueError"
    "1 \<le> (1 :: int) \<longrightarrow> generate_sequences example_fl example_rnd 1 1 (a, 0) = Inl ValueError"
    by blast
  from a(1) init have a0: "a = [[0]]" by simp
  from a(2) have 2: "generate_sequence example_fl example_rnd 1 ([[0]], 0) = Inl ValueError"
    unfolding a0 .
  from a(3) one(3) have 3: "generate_sequences example_fl example_rnd 1 1 ([[0]], 0) = Inl ValueError"
    unfolding a0 by blast
  from th1 one(3) have 4: "generate_balanced_sequences example_fl example_nprnd example_rnd 1 1
      ''example'' [] = (Some ValueError, [])" by blast
  from 1 2 3 4 show ?thesis by blast
qed

text \<open>
  C8, as stated, fails: with \<open>M = 0\<close>, \<open>generate_sequences\<close> returns the empty list
  and the run ends later with IndexError.
\<close>

theorem nonpositive_count_returns_empty:
  "generate_sequences example_fl example_rnd 3 0 (example_matrix, 0) = Inr ([], example_matrix, 0)
   \<and> generate_balanced_sequences example_fl example_nprnd example_rnd 3 0 ''example'' [] =
        (Some IndexError, [])"
  by code_simp

text \<open>
  C8, amended. For every \<open>M < 1\<close>, \<open>generate_sequences\<close> returns the empty list and
  leaves the state as it was; the run then fails with IndexError in the calculation of
  the transition probability matrix (with ValueError in the initializer when \<open>N\<close> is
  negative), and nothing is written.
\<close>

theorem nonpositive_count:
  assumes "M < 1"
  shows "generate_sequences fl rnd N M st = Inr ([], st)
       \<and> (0 \<le> N \<longrightarrow>
            generate_balanced_sequences fl nprnd rnd N M subfolder fs = (Some IndexError, fs))
       \<and> (N < 0 \<longrightarrow>
            generate_balanced_sequences fl nprnd rnd N M subfolder fs = (Some ValueError, fs))"
proof -
  from assms have M: "nat M = 0" by simp
  have g: "generate_sequences fl rnd N M st = Inr ([], st)" for st
    by (simp add: generate_sequences_def M)
  have "generate_balanced_sequences fl nprnd rnd N M subfolder fs = (Some IndexError, fs)"
    if "0 \<le> N"
    using that
    by (simp add: generate_balanced_sequences_def initialize_markov_chain_def random_rand_def
        g calculate_transition_probability_matrix_def)
  moreover have "generate_balanced_sequences fl nprnd rnd N M subfolder fs = (Some ValueError, fs)"
    if "N < 0"
    using that
    by (simp add: generate_balanced_sequences_def initialize_markov_chain_def random_rand_def)
  ultimately show ?thesis using g by blast
qed

theorem nonpositive_count_witness:
  "generate_sequences example_fl example_rnd 3 (- 2) (example_matrix, 0) = Inr ([], example_matrix, 0)
   \<and> generate_balanced_sequences example_fl example_nprnd example_rnd 3 (- 2) ''example'' [] =
        (Some IndexError, [])
   \<and> generate_balanced_sequences example_fl example_nprnd example_rnd (- 1) (- 2) ''example'' [] =
        (Some ValueError, [])"
proof -
  have M: "(- 2 :: int) < 1" by simp
  have N: "(0 :: int) \<le> 3" "(- 1 :: int) < 0" by simp_all
  from nonpositive_count[OF M, of example_fl example_rnd 3 "(example_matrix, 0)" example_nprnd
      "''example''" "[]"] N(1)
  have 1: "generate_sequences example_fl example_rnd 3 (- 2) (example_matrix, 0) =
      Inr ([], example_matrix, 0)"
    and 2: "generate_balanced_sequences example_fl example_nprnd example_rnd 3 (- 2) ''example'' [] =
        (Some IndexError, [])" by blast+
  from nonpositive_count[OF M, of example_fl example_rnd "- 1" "(example_matrix, 0)"
      example_nprnd
      "''example''" "[]"] N(2)
  have 3: "generate_balanced_sequences example_fl example_nprnd example_rnd (- 1) (- 2) ''example'' [] =
        (Some ValueError, [])" by blast
  from 1 2 3 show ?thesis by blast
qed

text \<open>
  C5. For every nonempty set of sequences that all have length \<open>n\<close> over the
  alphabet \<open>[0, n)\<close>, the computed matrix is the matrix of the specification: the
  count of each consecutive pair, divided by the sum of its row. Every row whose total
  count is nonzero consists of finite values that sum to 1; a row whose total count is
  zero consists of NaN.
\<close>

theorem transition_probability_matrix_counts:
  assumes "sequences \<noteq> []"
    and "\<forall>s\<in>set sequences. length s = n \<and> (\<forall>x\<in>set s. x < n)"
  shows "calculate_transition_probability_matrix sequences =
           Inr (spec_transition_probability_matrix n sequences)
       \<and> (\<forall>a<n. row_total n sequences a \<noteq> 0 \<longrightarrow>
            (\<exists>vs. spec_transition_probability_matrix n sequences ! a = map Fin vs
                  \<and> sum_list vs = 1))
       \<and> (\<forall>a<n. row_total n sequences a = 0 \<longrightarrow>
            spec_transition_probability_matrix n sequences ! a = replicate n NaN)"
proof (intro conjI allI impI)
  from assms(1) obtain first rest where fr: "sequences = first # rest"
    by (cases sequences) auto
  with assms(2) have n: "length first = n" by simp
  from count_sequences_Inr[OF square_zeros assms(2)] obtain tpm where
    tpm: "count_sequences n sequences (zeros n) = Inr tpm" "square n tpm"
    "\<forall>a<n. \<forall>b<n. tpm ! a ! b = zeros n ! a ! b + real (transition_count sequences a b)"
    by blast
  from tpm(3) have cells: "\<forall>a<n. \<forall>b<n. tpm ! a ! b = real (transition_count sequences a b)"
    by (simp add: zeros_nth)
  have "calculate_transition_probability_matrix sequences = Inr (normalize_rows tpm)"
    unfolding calculate_transition_probability_matrix_def fr list.case n
    using tpm(1)[unfolded fr] by simp
  then show "calculate_transition_probability_matrix sequences =
           Inr (spec_transition_probability_matrix n sequences)"
    by (simp add: normalize_rows_counts[OF tpm(2) cells])
next
  fix a assume a: "a < n" and nz: "row_total n sequences a \<noteq> 0"
  let ?S = "row_total n sequences a"
  let ?vs = "map (\<lambda>b. real (transition_count sequences a b) / ?S) [0..<n]"
  have "spec_transition_probability_matrix n sequences ! a = map Fin ?vs"
    using a nz by (simp add: spec_transition_probability_matrix_def np_divide_def comp_def)
  moreover have "sum_list ?vs = 1"
    using nz by (simp add: sum_list_divide row_total_def[symmetric])
  ultimately show "\<exists>vs. spec_transition_probability_matrix n sequences ! a = map Fin vs
                  \<and> sum_list vs = 1" by blast
next
  fix a assume a: "a < n" and z: "row_total n sequences a = 0"
  have nonneg: "\<forall>b\<in>set [0..<n]. 0 \<le> real (transition_count sequences a b)" by simp
  have "\<forall>b\<in>set [0..<n]. real (transition_count sequences a b) = 0"
    using z unfolding row_total_def
    by (subst (asm) sum_list_nonneg_eq_0_iff) auto
  then show "spec_transition_probability_matrix n sequences ! a = replicate n NaN"
    using a z
    by (auto simp: spec_transition_probability_matrix_def np_divide_def
        intro!: nth_equalityI)
qed

theorem transition_probability_matrix_counts_witness:
  "calculate_transition_probability_matrix [[0, 1, 0], [0, 2, 0]] =
     Inr (spec_transition_probability_matrix 3 [[0, 1, 0], [0, 2, 0]])
   \<and> (\<exists>vs. spec_transition_probability_matrix 3 [[0, 1, 0], [0, 2, 0]] ! 0 = map Fin vs
           \<and> sum_list vs = 1)
   \<and> calculate_transition_probability_matrix [[0, 1, 0], [0, 1, 0]] =
     Inr (spec_transition_probability_matrix 3 [[0, 1, 0], [0, 1, 0]])
   \<and> spec_transition_probability_matrix 3 [[0, 1, 0], [0, 1, 0]] ! 2 = replicate 3 NaN"
proof -
  have ne: "[[0, 1, 0], [0, 2, 0 :: nat]] \<noteq> []" "[[0, 1, 0], [0, 1, 0 :: nat]] \<noteq> []"
    by simp_all
  have wf1: "\<forall>s\<in>set [[0, 1, 0], [0, 2, 0 :: nat]]. length s = 3 \<and> (\<forall>x\<in>set s. x < 3)"
    by simp
  have wf2: "\<forall>s\<in>set [[0, 1, 0], [0, 1, 0 :: nat]]. length s = 3 \<and> (\<forall>x\<in>set s. x < 3)"
    by simp
  note th1 = transition_probability_matrix_counts[OF ne(1) wf1]
  note th2 = transition_probability_matrix_counts[OF ne(2) wf2]
  have lt: "(0 :: nat) < 3" "(2 :: nat) < 3" by simp_all
  from th1 have 1: "calculate_transition_probability_matrix [[0, 1, 0], [0, 2, 0]] =
     Inr (spec_transition_probability_matrix 3 [[0, 1, 0], [0, 2, 0]])" by blast
  from th1 lt(1) example_row_total
  have 2: "\<exists>vs. spec_transition_probability_matrix 3 [[0, 1, 0], [0, 2, 0]] ! 0 = map Fin vs
           \<and> sum_list vs = 1" by blast
  from th2 have 3: "calculate_transition_probability_matrix [[0, 1, 0], [0, 1, 0]] =
     Inr (spec_transition_probability_matrix 3 [[0, 1, 0], [0, 1, 0]])" by blast
  from th2 lt(2) example_row_total_zero
  have 4: "spec_transition_probability_matrix 3 [[0, 1, 0], [0, 1, 0]] ! 2 = replicate 3 NaN"
    by blast
  from 1 2 3 4 show ?thesis by blast
qed

end
